theory Spec2Isabelle
  imports Main "HOL-Library.Word"
begin

section \<open>Platform types and constants\<close>

text \<open>
  The transport of \<^verbatim>\<open>src/stacks/ip/hk_server_transport.c\<close> is compiled for the ESP32,
  an ILP32 target: \<^verbatim>\<open>size_t\<close> is an unsigned 32-bit integer and \<^verbatim>\<open>int\<close> a signed one.
  Whether plain \<^verbatim>\<open>char\<close> is signed is left to the compiler by the C standard (the ESP32
  toolchains make it unsigned); the functions that read a \<^verbatim>\<open>char\<close> as a number take that
  choice as their parameter \<open>char_signed\<close>.
\<close>

type_synonym byte = "8 word"
type_synonym size_t = "32 word"

definition char_to_int :: "bool \<Rightarrow> byte \<Rightarrow> int" where
  "char_to_int char_signed b = (if char_signed then sint b else uint b)"

definition int_to_size_t :: "int \<Rightarrow> size_t" where
  "int_to_size_t i = word_of_int i"

definition size_t_to_int :: "size_t \<Rightarrow> int" where
  "size_t_to_int w = sint w"

definition HK_MAX_RECV_SIZE :: nat where "HK_MAX_RECV_SIZE = 1024"
definition HK_AAD_SIZE :: nat where "HK_AAD_SIZE = 2"
definition HK_AUTHTAG_SIZE :: nat where "HK_AUTHTAG_SIZE = 16"
definition HK_MAX_DATA_SIZE :: nat where
  "HK_MAX_DATA_SIZE = HK_MAX_RECV_SIZE - HK_AAD_SIZE - HK_AUTHTAG_SIZE"

text \<open>The error codes of ESP-IDF's HTTP server (\<^verbatim>\<open>esp_http_server.h\<close>).\<close>

definition HTTPD_SOCK_ERR_FAIL :: int where "HTTPD_SOCK_ERR_FAIL = - 1"
definition HTTPD_SOCK_ERR_INVALID :: int where "HTTPD_SOCK_ERR_INVALID = - 2"
definition HTTPD_SOCK_ERR_TIMEOUT :: int where "HTTPD_SOCK_ERR_TIMEOUT = - 3"

section \<open>External collaborators\<close>

text \<open>
  The AEAD primitive (\<^verbatim>\<open>hk_chacha20poly1305_encrypt_buffer\<close> and
  \<^verbatim>\<open>hk_chacha20poly1305_decrypt_buffer\<close>) is not part of the transport: it is taken as a
  parameter. Both functions get the key, the nonce, the associated data and the message;
  encryption returns the ciphertext followed by the tag, decryption gets the ciphertext
  followed by the tag and returns the plaintext. \<open>None\<close> is a return value other than
  \<^verbatim>\<open>ESP_OK\<close>.
\<close>

record aead =
  encrypt_buffer :: "byte list \<Rightarrow> byte list \<Rightarrow> byte list \<Rightarrow> byte list \<Rightarrow> byte list option"
  decrypt_buffer :: "byte list \<Rightarrow> byte list \<Rightarrow> byte list \<Rightarrow> byte list \<Rightarrow> byte list option"

text \<open>
  Modelled from the spec: the declaration of \<^verbatim>\<open>hk_conn_key_store_t\<close> (in
  \<^verbatim>\<open>hk_session.h\<close>) is missing; the transport uses its two keys, one per direction.
\<close>

record hk_conn_key_store =
  request_key :: "byte list"
  response_key :: "byte list"

text \<open>
  The raw socket. What the peer and the network do is a script: \<open>rx_script\<close> holds the
  results of the coming \<^verbatim>\<open>recv\<close> calls (an \<^verbatim>\<open>errno\<close>, or the bytes that have arrived),
  \<open>tx_script\<close> those of the coming \<^verbatim>\<open>send\<close> calls (an \<^verbatim>\<open>errno\<close>, or how many bytes
  the stack accepts); a \<^verbatim>\<open>send\<close> beyond the script accepts everything, a \<^verbatim>\<open>recv\<close>
  beyond the script returns 0. \<open>tx_calls\<close> records the buffer of every \<^verbatim>\<open>send\<close> call,
  \<open>tx_wire\<close> the bytes that the stack has accepted.
\<close>

datatype errno = EAGAIN | EINTR | EINVAL | EBADF | EFAULT | ENOTSOCK | ECONNRESET

record raw_socket =
  rx_script :: "(errno + byte list) list"
  tx_script :: "(errno + nat) list"
  tx_calls :: "byte list list"
  tx_wire :: "byte list"

fun raw_recv :: "raw_socket \<Rightarrow> nat \<Rightarrow> (errno + byte list) \<times> raw_socket" where
  "raw_recv s max_len =
     (case rx_script s of
        [] \<Rightarrow> (Inr [], s)
      | Inl e # rest \<Rightarrow> (Inl e, s\<lparr>rx_script := rest\<rparr>)
      | Inr bs # rest \<Rightarrow>
          if length bs \<le> max_len then (Inr bs, s\<lparr>rx_script := rest\<rparr>)
          else (Inr (take max_len bs), s\<lparr>rx_script := Inr (drop max_len bs) # rest\<rparr>))"

fun raw_send :: "raw_socket \<Rightarrow> byte list \<Rightarrow> (errno + nat) \<times> raw_socket" where
  "raw_send s bs =
     (case tx_script s of
        [] \<Rightarrow> (Inr (length bs), s\<lparr>tx_calls := tx_calls s @ [bs], tx_wire := tx_wire s @ bs\<rparr>)
      | Inl e # rest \<Rightarrow> (Inl e, s\<lparr>tx_script := rest, tx_calls := tx_calls s @ [bs]\<rparr>)
      | Inr n # rest \<Rightarrow>
          (Inr (min n (length bs)),
           s\<lparr>tx_script := rest, tx_calls := tx_calls s @ [bs],
             tx_wire := tx_wire s @ take n bs\<rparr>))"

text \<open>A socket on which no coming \<^verbatim>\<open>send\<close> call fails.\<close>

definition sends_succeed :: "raw_socket \<Rightarrow> bool" where
  "sends_succeed s \<longleftrightarrow> (\<forall>r \<in> set (tx_script s). \<not> isl r)"

section \<open>The transport context\<close>

record hk_server_transport_context =
  received_buffer :: "byte list"
  received_submitted_length :: size_t
  received_length :: size_t
  received_frame_count :: size_t
  sent_frame_count :: size_t
  is_secure :: bool

text \<open>
  What the C code does outside the memory it was given, or with a null pointer handed to
  \<^verbatim>\<open>memcpy\<close>, does not follow from the source: such an access is a result of its own.
\<close>

datatype fault = ReadPastInput | WritePastBuffer | ReadPastBuffer | NullPointerRead

fun hk_server_transport_sock_err :: "errno \<Rightarrow> int" where
  "hk_server_transport_sock_err EAGAIN = HTTPD_SOCK_ERR_TIMEOUT"
| "hk_server_transport_sock_err EINTR = HTTPD_SOCK_ERR_TIMEOUT"
| "hk_server_transport_sock_err EINVAL = HTTPD_SOCK_ERR_INVALID"
| "hk_server_transport_sock_err EBADF = HTTPD_SOCK_ERR_INVALID"
| "hk_server_transport_sock_err EFAULT = HTTPD_SOCK_ERR_INVALID"
| "hk_server_transport_sock_err ENOTSOCK = HTTPD_SOCK_ERR_INVALID"
| "hk_server_transport_sock_err ECONNRESET = HTTPD_SOCK_ERR_FAIL"

section \<open>Frame codec\<close>

text \<open>
  The nonce of a frame: \<^verbatim>\<open>char nonce[12] = {0,}\<close>, then
  \<^verbatim>\<open>nonce[4] = count % 256; nonce[5] = count / 256;\<close>. Both values are stored into a
  \<^verbatim>\<open>char\<close>, which keeps their low 8 bits.
\<close>

definition frame_nonce :: "size_t \<Rightarrow> byte list" where
  "frame_nonce count =
     [0, 0, 0, 0, ucast (count mod 256), ucast (count div 256), 0, 0, 0, 0, 0, 0]"

text \<open>
  The length prefix of a frame:
  \<^verbatim>\<open>encrypted[0] = chunk_size % 256; encrypted[1] = chunk_size / 256;\<close>
\<close>

definition frame_length_prefix :: "nat \<Rightarrow> byte list" where
  "frame_length_prefix chunk_size = [of_nat (chunk_size mod 256), of_nat (chunk_size div 256)]"

text \<open>\<^verbatim>\<open>size_t message_size = encrypted[0] + encrypted[1] * 256;\<close>\<close>

definition message_size_of :: "bool \<Rightarrow> byte list \<Rightarrow> nat" where
  "message_size_of char_signed encrypted =
     unat (int_to_size_t
       (char_to_int char_signed (encrypted ! 0) + char_to_int char_signed (encrypted ! 1) * 256))"

definition write_at :: "byte list \<Rightarrow> nat \<Rightarrow> byte list \<Rightarrow> byte list" where
  "write_at buf off bs = take off buf @ bs @ drop (off + length bs) buf"

text \<open>
  The loop of \<^verbatim>\<open>hk_server_transport_decrypt\<close>. \<open>inp\<close> is the buffer that \<^verbatim>\<open>in\<close>
  points to, \<open>length_in\<close> the parameter \<^verbatim>\<open>length\<close>, \<open>out\<close> the output buffer. The
  result is the return value, the context (its receive counter advanced) and the output
  buffer as the loop left it. The loop looks at \<^verbatim>\<open>length\<close> only in its condition: a
  frame that starts below \<^verbatim>\<open>length\<close> is read as far as its length field says, also
  beyond \<^verbatim>\<open>length\<close>, where the buffer holds whatever it held before. The cipher is
  handed \<^verbatim>\<open>message_size\<close> bytes and the tag behind them, and writes \<^verbatim>\<open>message_size\<close>
  bytes to \<^verbatim>\<open>out + offset_out\<close>: only a frame that does not lie within the buffer, or
  a plaintext that does not fit the output buffer, is a fault. A call of the cipher that
  fails is taken to leave the output buffer as it was. The offsets are natural numbers:
  they stay within the buffer, so that the \<^verbatim>\<open>size_t\<close> arithmetic on them does not wrap.
\<close>

function hk_server_transport_decrypt_loop ::
  "aead \<Rightarrow> bool \<Rightarrow> hk_server_transport_context \<Rightarrow> hk_conn_key_store \<Rightarrow> byte list \<Rightarrow>
   byte list \<Rightarrow> nat \<Rightarrow> nat \<Rightarrow> nat \<Rightarrow>
   fault + (int \<times> hk_server_transport_context \<times> byte list)"
where
  "hk_server_transport_decrypt_loop A char_signed context keys inp out length_in
     offset_in offset_out =
     (if offset_in < length_in then
        (let encrypted = drop offset_in inp in
         if length encrypted < HK_AAD_SIZE then Inl ReadPastInput
         else
           (let message_size = message_size_of char_signed encrypted;
                nonce = frame_nonce (received_frame_count context);
                context' = context\<lparr>received_frame_count := received_frame_count context + 1\<rparr>
            in
              if length encrypted < HK_AAD_SIZE + message_size + HK_AUTHTAG_SIZE
              then Inl ReadPastInput
              else if length out < offset_out + message_size then Inl WritePastBuffer
              else
                (case decrypt_buffer A (request_key keys) nonce (take HK_AAD_SIZE encrypted)
                        (take (message_size + HK_AUTHTAG_SIZE) (drop HK_AAD_SIZE encrypted)) of
                   None \<Rightarrow> Inr (HTTPD_SOCK_ERR_FAIL, context', out)
                 | Some plain \<Rightarrow>
                     hk_server_transport_decrypt_loop A char_signed context' keys inp
                       (write_at out offset_out plain) length_in
                       (offset_in + (message_size + HK_AAD_SIZE + HK_AUTHTAG_SIZE))
                       (offset_out + message_size))))
      else Inr (size_t_to_int (of_nat offset_out), context, out))"
  by pat_completeness auto
termination
  by (relation "measure (\<lambda>(A, cs, context, keys, inp, out, length_in, offset_in, offset_out).
        length_in - offset_in)") (auto simp: HK_AAD_SIZE_def HK_AUTHTAG_SIZE_def)

definition hk_server_transport_decrypt ::
  "aead \<Rightarrow> bool \<Rightarrow> hk_server_transport_context \<Rightarrow> hk_conn_key_store \<Rightarrow> byte list \<Rightarrow>
   byte list \<Rightarrow> nat \<Rightarrow> fault + (int \<times> hk_server_transport_context \<times> byte list)"
where
  "hk_server_transport_decrypt A char_signed context keys inp out length_in =
     hk_server_transport_decrypt_loop A char_signed context keys inp out length_in 0 0"

text \<open>
  The loop of \<^verbatim>\<open>hk_server_transport_encrypt_and_send\<close>: \<open>pending\<close> holds the
  \<^verbatim>\<open>pending_size\<close> bytes still to send. The result is the return value, the context (its
  send counter advanced) and the socket. The macro \<^verbatim>\<open>HK_MAX_DATA_SIZE\<close> has no
  parentheses; where the loop uses it, in
  \<^verbatim>\<open>pending_size < HK_MAX_DATA_SIZE ? pending_size : HK_MAX_DATA_SIZE\<close>, it reads as
  \<open>1024 - 2 - 16\<close>. A failing \<^verbatim>\<open>send\<close> returns \<open>- 1\<close>, which the loop returns as it is.
\<close>

function hk_server_transport_encrypt_and_send_loop ::
  "aead \<Rightarrow> raw_socket \<Rightarrow> hk_server_transport_context \<Rightarrow> hk_conn_key_store \<Rightarrow> byte list \<Rightarrow>
   nat \<Rightarrow> int \<times> hk_server_transport_context \<times> raw_socket"
where
  "hk_server_transport_encrypt_and_send_loop A socket context keys pending in_length =
     (if length pending > 0 then
        (let chunk_size = (if length pending < HK_MAX_DATA_SIZE then length pending
                           else HK_MAX_DATA_SIZE);
             encrypted_prefix = frame_length_prefix chunk_size;
             nonce = frame_nonce (sent_frame_count context);
             context' = context\<lparr>sent_frame_count := sent_frame_count context + 1\<rparr>
         in
           (case encrypt_buffer A (response_key keys) nonce encrypted_prefix
                   (take chunk_size pending) of
              None \<Rightarrow> (HTTPD_SOCK_ERR_FAIL, context', socket)
            | Some ciphertext \<Rightarrow>
                (case raw_send socket (encrypted_prefix @ ciphertext) of
                   (Inl e, socket') \<Rightarrow> (- 1, context', socket')
                 | (Inr n, socket') \<Rightarrow>
                     hk_server_transport_encrypt_and_send_loop A socket' context' keys
                       (drop chunk_size pending) in_length)))
      else (size_t_to_int (of_nat in_length), context, socket))"
  by pat_completeness auto
termination
  by (relation "measure (\<lambda>(A, socket, context, keys, pending, in_length). length pending)")
     (auto simp: HK_MAX_DATA_SIZE_def HK_MAX_RECV_SIZE_def HK_AAD_SIZE_def HK_AUTHTAG_SIZE_def)

definition hk_server_transport_encrypt_and_send ::
  "aead \<Rightarrow> raw_socket \<Rightarrow> hk_server_transport_context \<Rightarrow> hk_conn_key_store \<Rightarrow> byte list \<Rightarrow>
   int \<times> hk_server_transport_context \<times> raw_socket"
where
  "hk_server_transport_encrypt_and_send A socket context keys inp =
     hk_server_transport_encrypt_and_send_loop A socket context keys inp (length inp)"

section \<open>Socket shim\<close>

text \<open>
  The end of the secure path of \<^verbatim>\<open>hk_server_transport_recv\<close>, from
  \<^verbatim>\<open>size_t copy_length = MIN(buffer_length, size_to_submit_from_buffer)\<close> on:
  \<^verbatim>\<open>memcpy(buffer, transport_context->received_buffer, copy_length)\<close> copies from the
  start of the receive buffer, then \<^verbatim>\<open>received_submitted_length\<close> goes up by
  \<^verbatim>\<open>copy_length\<close>, which is returned.
\<close>

definition hk_server_transport_submit ::
  "hk_server_transport_context \<Rightarrow> raw_socket \<Rightarrow> nat \<Rightarrow> size_t \<Rightarrow>
   fault + (int \<times> byte list \<times> hk_server_transport_context \<times> raw_socket)"
where
  "hk_server_transport_submit context socket buffer_length size_to_submit_from_buffer =
     (let copy_length = min buffer_length (unat size_to_submit_from_buffer) in
      if length (received_buffer context) < copy_length then Inl ReadPastBuffer
      else Inr (size_t_to_int (of_nat copy_length),
                take copy_length (received_buffer context),
                context\<lparr>received_submitted_length :=
                  received_submitted_length context + of_nat copy_length\<rparr>,
                socket))"

text \<open>
  \<^verbatim>\<open>hk_server_transport_recv\<close>. \<open>buffer_null\<close> says that the caller's buffer is
  \<^verbatim>\<open>NULL\<close>; \<open>stale\<close> is what the array \<^verbatim>\<open>buffer_recv\<close> of \<^verbatim>\<open>HK_MAX_RECV_SIZE\<close>
  bytes, which the function does not initialise, holds when the call starts: after the raw
  read the array holds the bytes received and, behind them, the rest of \<open>stale\<close>. The
  result is the return value, the bytes copied into the caller's buffer, the context and
  the socket. The chained assignment
  \<^verbatim>\<open>size_to_submit_from_buffer = transport_context->received_length = ret = hk_server_transport_decrypt(...)\<close>
  stores the \<^verbatim>\<open>int\<close> result, converted to \<^verbatim>\<open>size_t\<close>, before \<^verbatim>\<open>ret < 0\<close> is tested.
\<close>

definition hk_server_transport_recv ::
  "aead \<Rightarrow> bool \<Rightarrow> hk_server_transport_context \<Rightarrow> hk_conn_key_store \<Rightarrow> raw_socket \<Rightarrow>
   bool \<Rightarrow> nat \<Rightarrow> byte list \<Rightarrow>
   fault + (int \<times> byte list \<times> hk_server_transport_context \<times> raw_socket)"
where
  "hk_server_transport_recv A char_signed context keys socket buffer_null buffer_length stale =
     (if buffer_null then Inr (HTTPD_SOCK_ERR_INVALID, [], context, socket)
      else if is_secure context then
        (let size_to_submit_from_buffer =
               received_length context - received_submitted_length context
         in
           if size_to_submit_from_buffer < 1 then
             (case raw_recv socket HK_MAX_RECV_SIZE of
                (Inl e, socket') \<Rightarrow> Inr (hk_server_transport_sock_err e, [], context, socket')
              | (Inr received, socket') \<Rightarrow>
                  (let buffer_recv = received @ drop (length received) stale;
                       context1 = context\<lparr>received_buffer := replicate HK_MAX_RECV_SIZE 0,
                                          received_submitted_length := 0\<rparr>
                   in
                     case hk_server_transport_decrypt A char_signed context1 keys buffer_recv
                            (received_buffer context1) (length received) of
                       Inl f \<Rightarrow> Inl f
                     | Inr (ret, context2, out) \<Rightarrow>
                         (let context3 = context2\<lparr>received_buffer := out,
                                                 received_length := int_to_size_t ret\<rparr>
                          in
                            if ret < 0 then Inr (HTTPD_SOCK_ERR_FAIL, [], context3, socket')
                            else hk_server_transport_submit context3 socket' buffer_length
                                   (int_to_size_t ret))))
           else hk_server_transport_submit context socket buffer_length
                  size_to_submit_from_buffer)
      else
        (case raw_recv socket buffer_length of
           (Inl e, socket') \<Rightarrow> Inr (hk_server_transport_sock_err e, [], context, socket')
         | (Inr bs, socket') \<Rightarrow> Inr (int (length bs), bs, context, socket')))"

text \<open>
  \<^verbatim>\<open>hk_server_transport_send\<close>. The caller's buffer is \<open>None\<close> when it is \<^verbatim>\<open>NULL\<close>.
  The function first copies \<^verbatim>\<open>buffer_length\<close> bytes out of the buffer for a log line
  (\<^verbatim>\<open>memcpy(content, buffer, buffer_length)\<close>), then compares the buffer with \<^verbatim>\<open>NULL\<close>.
  Handing a null pointer to \<^verbatim>\<open>memcpy\<close> is undefined for every length, 0 too (a compiler
  may drop the comparison that follows it): with a null buffer the function never gets to
  report the invalid argument.
\<close>

definition hk_server_transport_send ::
  "aead \<Rightarrow> hk_server_transport_context \<Rightarrow> hk_conn_key_store \<Rightarrow> raw_socket \<Rightarrow>
   byte list option \<Rightarrow> nat \<Rightarrow> fault + (int \<times> hk_server_transport_context \<times> raw_socket)"
where
  "hk_server_transport_send A context keys socket buffer buffer_length =
     (case buffer of
        None \<Rightarrow> Inl NullPointerRead
      | Some bs \<Rightarrow>
          if length bs < buffer_length then Inl ReadPastBuffer
          else if is_secure context then
            Inr (hk_server_transport_encrypt_and_send A socket context keys
                   (take buffer_length bs))
          else
            (case raw_send socket (take buffer_length bs) of
               (Inl e, socket') \<Rightarrow> Inr (hk_server_transport_sock_err e, context, socket')
             | (Inr n, socket') \<Rightarrow> Inr (int n, context, socket')))"

section \<open>Connection lifecycle hooks\<close>

text \<open>
  \<^verbatim>\<open>hk_server_transport_context_init\<close>: \<open>mem\<close> is the content of the block that
  \<^verbatim>\<open>malloc(HK_MAX_RECV_SIZE)\<close> returns, which the function does not initialise.
\<close>

definition hk_server_transport_context_init :: "byte list \<Rightarrow> hk_server_transport_context" where
  "hk_server_transport_context_init mem =
     \<lparr>received_buffer = mem,
      received_submitted_length = 0,
      received_length = 0,
      received_frame_count = 0,
      sent_frame_count = 0,
      is_secure = False\<rparr>"

definition hk_server_transport_set_session_secure ::
  "hk_server_transport_context \<Rightarrow> hk_server_transport_context" where
  "hk_server_transport_set_session_secure transport_context =
     transport_context\<lparr>is_secure := True\<rparr>"





section \<open>The wire format, as the specification words it\<close>

text \<open>
  The specification's fragmentation: the plaintext is cut into chunks of the maximum
  payload size, the last one holding the rest.
\<close>

function plaintext_chunks :: "byte list \<Rightarrow> byte list list" where
  "plaintext_chunks P =
     (if P = [] then []
      else take HK_MAX_DATA_SIZE P # plaintext_chunks (drop HK_MAX_DATA_SIZE P))"
  by pat_completeness auto
termination
  by (relation "measure length")
     (auto simp: HK_MAX_DATA_SIZE_def HK_MAX_RECV_SIZE_def HK_AAD_SIZE_def HK_AUTHTAG_SIZE_def)

text \<open>
  The specification's frame of a chunk under a frame counter: the 2-byte little-endian
  length, then the AEAD's output (ciphertext and tag) under the counter's nonce, with the
  length field as associated data.
\<close>

definition wire_frame :: "aead \<Rightarrow> byte list \<Rightarrow> size_t \<Rightarrow> byte list \<Rightarrow> byte list" where
  "wire_frame A key count chunk =
     frame_length_prefix (length chunk) @
     the (encrypt_buffer A key (frame_nonce count) (frame_length_prefix (length chunk)) chunk)"

definition sent_frames :: "aead \<Rightarrow> byte list \<Rightarrow> size_t \<Rightarrow> byte list \<Rightarrow> byte list list" where
  "sent_frames A key count P =
     map (\<lambda>(k, chunk). wire_frame A key (count + of_nat k) chunk)
       (enumerate 0 (plaintext_chunks P))"

text \<open>
  Chunk \<open>k\<close> of a plaintext does not get through when the cipher fails on it, under the
  nonce of the counter advanced \<open>k\<close> times, or when the \<^verbatim>\<open>send\<close> call for its frame
  fails.
\<close>

definition send_frame_fails ::
  "aead \<Rightarrow> byte list \<Rightarrow> size_t \<Rightarrow> (errno + nat) list \<Rightarrow> byte list \<Rightarrow> nat \<Rightarrow> bool" where
  "send_frame_fails A key count script P k \<longleftrightarrow>
     encrypt_buffer A key (frame_nonce (count + of_nat k))
       (frame_length_prefix (length (plaintext_chunks P ! k))) (plaintext_chunks P ! k) = None \<or>
     (k < length script \<and> isl (script ! k))"

text \<open>
  The specification's reading of a received frame under a frame counter, and of a
  sequence of frames.
\<close>

definition frame_plaintext :: "aead \<Rightarrow> byte list \<Rightarrow> size_t \<Rightarrow> byte list \<Rightarrow> byte list option" where
  "frame_plaintext A key count frame =
     decrypt_buffer A key (frame_nonce count) (take HK_AAD_SIZE frame) (drop HK_AAD_SIZE frame)"

definition received_plaintexts ::
  "aead \<Rightarrow> byte list \<Rightarrow> size_t \<Rightarrow> byte list list \<Rightarrow> byte list option list" where
  "received_plaintexts A key count frames =
     map (\<lambda>(k, frame). frame_plaintext A key (count + of_nat k) frame) (enumerate 0 frames)"

text \<open>
  A frame as the decrypt operation cuts it out of its input: the length field, as the
  operation reads it, is the length of what lies between the field and the tag.
\<close>

definition frame_of_input :: "bool \<Rightarrow> byte list \<Rightarrow> bool" where
  "frame_of_input char_signed frame \<longleftrightarrow>
     HK_AAD_SIZE + HK_AUTHTAG_SIZE \<le> length frame \<and>
     message_size_of char_signed frame + (HK_AAD_SIZE + HK_AUTHTAG_SIZE) = length frame"

text \<open>
  A buffer that has the wire format: a little-endian length of at most the maximum
  payload, followed by that many bytes and 16 more.
\<close>

definition framed :: "byte list \<Rightarrow> bool" where
  "framed frame \<longleftrightarrow>
     HK_AAD_SIZE + HK_AUTHTAG_SIZE \<le> length frame \<and>
     length frame \<le> HK_MAX_RECV_SIZE \<and>
     take HK_AAD_SIZE frame =
       frame_length_prefix (length frame - (HK_AAD_SIZE + HK_AUTHTAG_SIZE))"

text \<open>
  What the transport expects of the AEAD primitive: encryption succeeds and appends a
  16-byte tag; a decrypted message is 16 bytes shorter than what was given; decryption
  under the same key, nonce and associated data inverts encryption.
\<close>

definition aead_encrypts :: "aead \<Rightarrow> bool" where
  "aead_encrypts A \<longleftrightarrow>
     (\<forall>key nonce aad plain. \<exists>c.
        encrypt_buffer A key nonce aad plain = Some c \<and>
        length c = length plain + HK_AUTHTAG_SIZE)"

definition aead_decrypt_length :: "aead \<Rightarrow> bool" where
  "aead_decrypt_length A \<longleftrightarrow>
     (\<forall>key nonce aad message plain.
        decrypt_buffer A key nonce aad message = Some plain \<longrightarrow>
        length plain + HK_AUTHTAG_SIZE = length message)"

definition aead_inverts :: "aead \<Rightarrow> bool" where
  "aead_inverts A \<longleftrightarrow>
     (\<forall>key nonce aad plain c.
        encrypt_buffer A key nonce aad plain = Some c \<longrightarrow>
        decrypt_buffer A key nonce aad c = Some plain)"

section \<open>A test double for the AEAD primitive\<close>

text \<open>
  A stand-in for the cipher, used to run the transport on concrete inputs: it shifts every
  byte by a pad made of key and nonce and appends 16 copies of a checksum of key, nonce,
  associated data and plaintext.
\<close>

definition toy_pad :: "byte list \<Rightarrow> byte list \<Rightarrow> byte" where
  "toy_pad key nonce = sum_list key + sum_list nonce"

definition toy_tag :: "byte list \<Rightarrow> byte list \<Rightarrow> byte list \<Rightarrow> byte list \<Rightarrow> byte list" where
  "toy_tag key nonce aad plain =
     replicate HK_AUTHTAG_SIZE (toy_pad key nonce + sum_list aad + sum_list plain)"

definition toy_aead :: aead where
  "toy_aead =
     \<lparr>encrypt_buffer = (\<lambda>key nonce aad plain.
        Some (map (\<lambda>b. b + toy_pad key nonce) plain @ toy_tag key nonce aad plain)),
      decrypt_buffer = (\<lambda>key nonce aad message.
        (let n = length message - HK_AUTHTAG_SIZE;
             plain = map (\<lambda>b. b - toy_pad key nonce) (take n message)
         in if HK_AUTHTAG_SIZE \<le> length message \<and> drop n message = toy_tag key nonce aad plain
            then Some plain else None))\<rparr>"

definition toy_keys :: hk_conn_key_store where
  "toy_keys = \<lparr>request_key = [1, 2], response_key = [1, 2]\<rparr>"

definition idle_socket :: raw_socket where
  "idle_socket = \<lparr>rx_script = [], tx_script = [], tx_calls = [], tx_wire = []\<rparr>"

definition secure_context :: hk_server_transport_context where
  "secure_context =
     hk_server_transport_set_session_secure
       (hk_server_transport_context_init (replicate HK_MAX_RECV_SIZE 0))"

section \<open>Basic facts\<close>

lemmas hk_consts = HK_MAX_RECV_SIZE_def HK_AAD_SIZE_def HK_AUTHTAG_SIZE_def
  HK_MAX_DATA_SIZE_def HTTPD_SOCK_ERR_FAIL_def HTTPD_SOCK_ERR_INVALID_def
  HTTPD_SOCK_ERR_TIMEOUT_def

lemma unat_byte_less: "unat (b :: byte) < 256"
proof -
  have "unat b < 2 ^ LENGTH(8)" by (rule unsigned_less)
  then show ?thesis by simp
qed

subsection \<open>The length field\<close>

lemma message_size_unsigned:
  "message_size_of False (b0 # b1 # rest) = unat b0 + 256 * unat b1"
proof -
  have lt: "unat b0 < 256" "unat b1 < 256"
    by (rule unat_byte_less)+
  have "uint b0 + uint b1 * 256 = int (unat b0 + 256 * unat b1)"
    by simp
  then have "int_to_size_t (uint b0 + uint b1 * 256) = of_nat (unat b0 + 256 * unat b1)"
    unfolding int_to_size_t_def by (simp only: of_int_of_nat_eq)
  then have "unat (int_to_size_t (uint b0 + uint b1 * 256)) =
      (unat b0 + 256 * unat b1) mod 2 ^ 32"
    by (simp only: unat_of_nat) simp
  also have "\<dots> = unat b0 + 256 * unat b1"
    using lt by simp
  finally show ?thesis
    by (simp add: message_size_of_def char_to_int_def)
qed

text \<open>
  With a signed \<^verbatim>\<open>char\<close> the same line sign-extends a byte of 0x80 or above: the
  length 200 is read as \<open>2 ^ 32 - 56\<close>.
\<close>

lemma message_size_signed_char: "message_size_of True [200, 0] = 4294967240"
  by (simp add: message_size_of_def char_to_int_def int_to_size_t_def)

lemma frame_length_prefix_decodes:
  assumes "n < 65536"
  shows "message_size_of False (frame_length_prefix n @ rest) = n"
proof -
  have "unat (of_nat (n mod 256) :: byte) = n mod 256"
    by (simp add: unat_of_nat)
  moreover have "unat (of_nat (n div 256) :: byte) = n div 256"
    using assms by (simp add: unat_of_nat)
  ultimately show ?thesis
    by (simp add: frame_length_prefix_def message_size_unsigned)
qed

subsection \<open>The nonce\<close>

lemma nonce_byte4: "unat (ucast (c mod 256 :: size_t) :: byte) = unat c mod 256"
  by (simp add: unsigned_ucast_eq take_bit_eq_mod unat_mod)

lemma nonce_byte5: "unat (ucast (c div 256 :: size_t) :: byte) = unat c div 256 mod 256"
  by (simp add: unsigned_ucast_eq take_bit_eq_mod unat_div)

lemma frame_nonce_unat:
  "frame_nonce c =
     [0, 0, 0, 0, of_nat (unat c mod 256), of_nat (unat c div 256 mod 256), 0, 0, 0, 0, 0, 0]"
proof -
  have "ucast (c mod 256) = (of_nat (unat c mod 256) :: byte)"
    by (simp add: nonce_byte4[symmetric])
  moreover have "ucast (c div 256) = (of_nat (unat c div 256 mod 256) :: byte)"
    by (simp add: nonce_byte5[symmetric])
  ultimately show ?thesis
    unfolding frame_nonce_def by (simp only:)
qed

lemma low16_split:
  fixes m :: nat
  shows "m mod 65536 mod 256 = m mod 256" "m mod 65536 div 256 = m div 256 mod 256"
proof -
  show "m mod 65536 mod 256 = m mod 256"
    by (rule mod_mod_cancel) simp
  have "m mod (256 * 256) = 256 * (m div 256 mod 256) + m mod 256"
    by (rule mod_mult2_eq)
  then have "m mod 65536 div 256 = (256 * (m div 256 mod 256) + m mod 256) div 256"
    by simp
  also have "\<dots> = m div 256 mod 256"
    by simp
  finally show "m mod 65536 div 256 = m div 256 mod 256" .
qed

lemma frame_nonce_low16:
  assumes "unat c mod 65536 = unat c' mod 65536"
  shows "frame_nonce c = frame_nonce c'"
proof -
  have "unat c mod 256 = unat c' mod 256"
    using assms low16_split(1)[of "unat c"] low16_split(1)[of "unat c'"] by simp
  moreover have "unat c div 256 mod 256 = unat c' div 256 mod 256"
    using assms low16_split(2)[of "unat c"] low16_split(2)[of "unat c'"] by simp
  ultimately show ?thesis by (simp add: frame_nonce_unat)
qed

lemma frame_nonce_period: "frame_nonce (c + 65536) = frame_nonce c"
proof (rule frame_nonce_low16)
  have "unat (c + 65536) = (unat c + 65536) mod 2 ^ 32"
    by (simp add: unat_word_ariths)
  moreover have "(unat c + 65536) mod 2 ^ 32 mod 65536 = (unat c + 65536) mod 65536"
    by (rule mod_mod_cancel) simp
  ultimately show "unat (c + 65536) mod 65536 = unat c mod 65536"
    by simp
qed

subsection \<open>The test double meets the expectations\<close>

lemma toy_aead_encrypts: "aead_encrypts toy_aead"
  by (simp add: aead_encrypts_def toy_aead_def toy_tag_def)

lemma toy_aead_decrypt_length: "aead_decrypt_length toy_aead"
  by (auto simp: aead_decrypt_length_def toy_aead_def Let_def split: if_splits)

lemma toy_aead_inverts: "aead_inverts toy_aead"
  by (auto simp: aead_inverts_def toy_aead_def Let_def toy_tag_def o_def)

subsection \<open>Unfolding the send loop\<close>

declare hk_server_transport_encrypt_and_send_loop.simps [simp del]
declare hk_server_transport_decrypt_loop.simps [simp del]
declare plaintext_chunks.simps [simp del]
declare raw_send.simps [simp del]
declare raw_recv.simps [simp del]

lemma plaintext_chunks_Nil [simp]: "plaintext_chunks [] = []"
  by (simp add: plaintext_chunks.simps)

lemma plaintext_chunks_step:
  "P \<noteq> [] \<Longrightarrow>
   plaintext_chunks P = take HK_MAX_DATA_SIZE P # plaintext_chunks (drop HK_MAX_DATA_SIZE P)"
  by (subst plaintext_chunks.simps) simp

lemma enumerate_shift:
  "map (\<lambda>(k, x). f (c + of_nat k) x) (enumerate (Suc n) xs) =
   map (\<lambda>(k, x). f ((c + 1) + of_nat k) x) (enumerate n xs)"
  by (induction xs arbitrary: n) (simp_all add: ac_simps)

lemma sent_frames_Nil [simp]: "sent_frames A key c [] = []"
  by (simp add: sent_frames_def)

lemma sent_frames_step:
  "P \<noteq> [] \<Longrightarrow>
   sent_frames A key c P =
     wire_frame A key c (take HK_MAX_DATA_SIZE P) #
     sent_frames A key (c + 1) (drop HK_MAX_DATA_SIZE P)"
  by (simp add: sent_frames_def plaintext_chunks_step enumerate_shift[where n=0, simplified])

lemma length_sent_frames [simp]:
  "length (sent_frames A key c P) = length (plaintext_chunks P)"
  by (simp add: sent_frames_def)

lemma encrypt_and_send_loop_Nil:
  "hk_server_transport_encrypt_and_send_loop A socket context keys [] L =
     (size_t_to_int (of_nat L), context, socket)"
  by (subst hk_server_transport_encrypt_and_send_loop.simps) simp

lemma encrypt_and_send_loop_step:
  assumes "pending \<noteq> []"
  shows "hk_server_transport_encrypt_and_send_loop A socket context keys pending L =
     (case encrypt_buffer A (response_key keys) (frame_nonce (sent_frame_count context))
             (frame_length_prefix (length (take HK_MAX_DATA_SIZE pending)))
             (take HK_MAX_DATA_SIZE pending) of
        None \<Rightarrow> (HTTPD_SOCK_ERR_FAIL,
                  context\<lparr>sent_frame_count := sent_frame_count context + 1\<rparr>, socket)
      | Some c \<Rightarrow>
          (case raw_send socket
                  (frame_length_prefix (length (take HK_MAX_DATA_SIZE pending)) @ c) of
             (Inl e, socket') \<Rightarrow>
               (- 1, context\<lparr>sent_frame_count := sent_frame_count context + 1\<rparr>, socket')
           | (Inr n, socket') \<Rightarrow>
               hk_server_transport_encrypt_and_send_loop A socket'
                 (context\<lparr>sent_frame_count := sent_frame_count context + 1\<rparr>) keys
                 (drop HK_MAX_DATA_SIZE pending) L))"
proof -
  have "(if length pending < HK_MAX_DATA_SIZE then length pending else HK_MAX_DATA_SIZE) =
      length (take HK_MAX_DATA_SIZE pending)"
    by simp
  moreover have "take (length (take HK_MAX_DATA_SIZE pending)) pending =
      take HK_MAX_DATA_SIZE pending"
    by (simp add: min_def)
  moreover have "drop (length (take HK_MAX_DATA_SIZE pending)) pending =
      drop HK_MAX_DATA_SIZE pending"
    by (simp add: min_def)
  ultimately show ?thesis
    using assms
    by (subst hk_server_transport_encrypt_and_send_loop.simps) (simp only: Let_def length_greater_0_conv not_False_eq_True if_True simp_thms)
qed

subsection \<open>The send loop and the socket\<close>

lemma raw_send_idle:
  "tx_script s = [] \<Longrightarrow>
   raw_send s bs = (Inr (length bs), s\<lparr>tx_calls := tx_calls s @ [bs], tx_wire := tx_wire s @ bs\<rparr>)"
  by (simp add: raw_send.simps)

lemma raw_send_fail:
  "tx_script s = Inl e # rest \<Longrightarrow>
   raw_send s bs = (Inl e, s\<lparr>tx_script := rest, tx_calls := tx_calls s @ [bs]\<rparr>)"
  by (simp add: raw_send.simps)

lemma raw_send_accepts:
  assumes "tx_script s = [] \<or> \<not> isl (hd (tx_script s))"
  shows "\<exists>n s'. raw_send s bs = (Inr n, s') \<and> tx_calls s' = tx_calls s @ [bs] \<and>
           tx_script s' = tl (tx_script s) \<and> rx_script s' = rx_script s"
proof (cases "tx_script s")
  case Nil
  then show ?thesis by (simp add: raw_send.simps)
next
  case (Cons r rest)
  with assms obtain n where "r = Inr n" by (cases r) auto
  with Cons show ?thesis by (simp add: raw_send.simps)
qed


text \<open>While no send call fails, every frame is handed to the socket, in order.\<close>

lemma encrypt_and_send_loop_ok:
  assumes "aead_encrypts A"
    and "\<forall>r \<in> set (take (length (plaintext_chunks pending)) (tx_script socket)). \<not> isl r"
  shows "\<exists>socket'.
     hk_server_transport_encrypt_and_send_loop A socket ctx keys pending L =
       (size_t_to_int (of_nat L),
        ctx\<lparr>sent_frame_count :=
          sent_frame_count ctx + of_nat (length (plaintext_chunks pending))\<rparr>,
        socket') \<and>
     tx_calls socket' =
       tx_calls socket @ sent_frames A (response_key keys) (sent_frame_count ctx) pending \<and>
     tx_script socket' = drop (length (plaintext_chunks pending)) (tx_script socket) \<and>
     rx_script socket' = rx_script socket"
  using assms(2)
proof (induction "length pending" arbitrary: pending socket ctx rule: less_induct)
  case less
  show ?case
  proof (cases "pending = []")
    case True
    then show ?thesis by (simp add: encrypt_and_send_loop_Nil)
  next
    case False
    let ?chunk = "take HK_MAX_DATA_SIZE pending"
    let ?rest = "drop HK_MAX_DATA_SIZE pending"
    let ?prefix = "frame_length_prefix (length ?chunk)"
    let ?ctx' = "ctx\<lparr>sent_frame_count := sent_frame_count ctx + 1\<rparr>"
    from assms(1) obtain c where
      enc: "encrypt_buffer A (response_key keys) (frame_nonce (sent_frame_count ctx))
              ?prefix ?chunk = Some c"
      unfolding aead_encrypts_def by blast
    then have frame: "wire_frame A (response_key keys) (sent_frame_count ctx) ?chunk =
        ?prefix @ c"
      by (simp add: wire_frame_def)
    have chunks: "plaintext_chunks pending = ?chunk # plaintext_chunks ?rest"
      using False by (rule plaintext_chunks_step)
    have "tx_script socket = [] \<or> \<not> isl (hd (tx_script socket))"
      using less.prems chunks by (cases "tx_script socket") auto
    then obtain n socket1 where
      send: "raw_send socket (?prefix @ c) = (Inr n, socket1)"
      and s1: "tx_calls socket1 = tx_calls socket @ [?prefix @ c]"
        "tx_script socket1 = tl (tx_script socket)" "rx_script socket1 = rx_script socket"
      using raw_send_accepts by blast
    have shorter: "length ?rest < length pending"
      using False by (simp add: hk_consts)
    have "\<forall>r \<in> set (take (length (plaintext_chunks ?rest)) (tx_script socket1)). \<not> isl r"
      using less.prems chunks s1(2) by (cases "tx_script socket") auto
    from less.hyps[OF shorter this, of ?ctx']
    obtain socket' where
      rec: "hk_server_transport_encrypt_and_send_loop A socket1 ?ctx' keys ?rest L =
          (size_t_to_int (of_nat L),
           ?ctx'\<lparr>sent_frame_count :=
             sent_frame_count ?ctx' + of_nat (length (plaintext_chunks ?rest))\<rparr>,
           socket')"
      and s': "tx_calls socket' =
          tx_calls socket1 @ sent_frames A (response_key keys) (sent_frame_count ?ctx') ?rest"
        "tx_script socket' = drop (length (plaintext_chunks ?rest)) (tx_script socket1)"
        "rx_script socket' = rx_script socket1"
      by blast
    have "hk_server_transport_encrypt_and_send_loop A socket ctx keys pending L =
        hk_server_transport_encrypt_and_send_loop A socket1 ?ctx' keys ?rest L"
      using enc send by (simp add: encrypt_and_send_loop_step[OF False])
    moreover have "tx_calls socket' =
        tx_calls socket @ sent_frames A (response_key keys) (sent_frame_count ctx) pending"
      using s'(1) s1(1) frame by (simp add: sent_frames_step[OF False])
    moreover have "tx_script socket' = drop (length (plaintext_chunks pending)) (tx_script socket)"
      using s'(2) s1(2) chunks by (simp add: drop_Suc)
    ultimately show ?thesis
      using rec s'(3) s1(3) chunks by (simp add: add.assoc)
  qed
qed

text \<open>On a socket that accepts everything, the wire gets the frames, whole and in order.\<close>

lemma encrypt_and_send_loop_idle:
  assumes "aead_encrypts A" and "tx_script socket = []"
  shows "hk_server_transport_encrypt_and_send_loop A socket ctx keys pending L =
       (size_t_to_int (of_nat L),
        ctx\<lparr>sent_frame_count :=
          sent_frame_count ctx + of_nat (length (plaintext_chunks pending))\<rparr>,
        socket\<lparr>tx_calls :=
            tx_calls socket @ sent_frames A (response_key keys) (sent_frame_count ctx) pending,
          tx_wire :=
            tx_wire socket @
            concat (sent_frames A (response_key keys) (sent_frame_count ctx) pending)\<rparr>)"
  using assms(2)
proof (induction "length pending" arbitrary: pending socket ctx rule: less_induct)
  case less
  show ?case
  proof (cases "pending = []")
    case True
    then show ?thesis by (simp add: encrypt_and_send_loop_Nil)
  next
    case False
    let ?chunk = "take HK_MAX_DATA_SIZE pending"
    let ?rest = "drop HK_MAX_DATA_SIZE pending"
    let ?prefix = "frame_length_prefix (length ?chunk)"
    let ?ctx' = "ctx\<lparr>sent_frame_count := sent_frame_count ctx + 1\<rparr>"
    from assms(1) obtain c where
      enc: "encrypt_buffer A (response_key keys) (frame_nonce (sent_frame_count ctx))
              ?prefix ?chunk = Some c"
      unfolding aead_encrypts_def by blast
    then have frame: "wire_frame A (response_key keys) (sent_frame_count ctx) ?chunk =
        ?prefix @ c"
      by (simp add: wire_frame_def)
    let ?socket1 = "socket\<lparr>tx_calls := tx_calls socket @ [?prefix @ c],
      tx_wire := tx_wire socket @ (?prefix @ c)\<rparr>"
    have send: "raw_send socket (?prefix @ c) = (Inr (length (?prefix @ c)), ?socket1)"
      using less.prems by (rule raw_send_idle)
    have chunks: "plaintext_chunks pending = ?chunk # plaintext_chunks ?rest"
      using False by (rule plaintext_chunks_step)
    have shorter: "length ?rest < length pending"
      using False by (simp add: hk_consts)
    have idle1: "tx_script ?socket1 = []"
      using less.prems by simp
    have "hk_server_transport_encrypt_and_send_loop A socket ctx keys pending L =
        hk_server_transport_encrypt_and_send_loop A ?socket1 ?ctx' keys ?rest L"
      using enc send by (simp add: encrypt_and_send_loop_step[OF False])
    also note less.hyps[OF shorter idle1, of ?ctx']
    finally show ?thesis
      using chunks frame by (simp add: sent_frames_step[OF False] add.assoc)
  qed
qed

text \<open>The first send call that fails ends the loop: later chunks are not touched.\<close>

lemma encrypt_and_send_loop_fail:
  assumes "aead_encrypts A"
    and "k < length (plaintext_chunks pending)"
    and "k < length (tx_script socket)"
    and "tx_script socket ! k = Inl e"
    and "\<forall>j < k. \<not> isl (tx_script socket ! j)"
  shows "\<exists>socket'.
     hk_server_transport_encrypt_and_send_loop A socket ctx keys pending L =
       (- 1, ctx\<lparr>sent_frame_count := sent_frame_count ctx + of_nat (Suc k)\<rparr>, socket') \<and>
     tx_calls socket' =
       tx_calls socket @
       take (Suc k) (sent_frames A (response_key keys) (sent_frame_count ctx) pending) \<and>
     tx_script socket' = drop (Suc k) (tx_script socket) \<and>
     rx_script socket' = rx_script socket"
  using assms(2-)
proof (induction k arbitrary: pending socket ctx)
  case 0
  then have ne: "pending \<noteq> []" by auto
  let ?chunk = "take HK_MAX_DATA_SIZE pending"
  let ?prefix = "frame_length_prefix (length ?chunk)"
  from assms(1) obtain c where
    enc: "encrypt_buffer A (response_key keys) (frame_nonce (sent_frame_count ctx))
            ?prefix ?chunk = Some c"
    unfolding aead_encrypts_def by blast
  then have frame: "wire_frame A (response_key keys) (sent_frame_count ctx) ?chunk =
      ?prefix @ c"
    by (simp add: wire_frame_def)
  from 0 obtain rest where script: "tx_script socket = Inl e # rest"
    by (cases "tx_script socket") auto
  show ?case
    using enc frame raw_send_fail[OF script]
    by (simp add: encrypt_and_send_loop_step[OF ne] sent_frames_step[OF ne] script)
next
  case (Suc k)
  then have ne: "pending \<noteq> []" by auto
  let ?chunk = "take HK_MAX_DATA_SIZE pending"
  let ?rest = "drop HK_MAX_DATA_SIZE pending"
  let ?prefix = "frame_length_prefix (length ?chunk)"
  let ?ctx' = "ctx\<lparr>sent_frame_count := sent_frame_count ctx + 1\<rparr>"
  from assms(1) obtain c where
    enc: "encrypt_buffer A (response_key keys) (frame_nonce (sent_frame_count ctx))
            ?prefix ?chunk = Some c"
    unfolding aead_encrypts_def by blast
  then have frame: "wire_frame A (response_key keys) (sent_frame_count ctx) ?chunk =
      ?prefix @ c"
    by (simp add: wire_frame_def)
  have chunks: "plaintext_chunks pending = ?chunk # plaintext_chunks ?rest"
    using ne by (rule plaintext_chunks_step)
  from Suc.prems obtain r rest where script: "tx_script socket = r # rest"
    by (cases "tx_script socket") auto
  have "\<not> isl r"
    using Suc.prems(4) script by auto
  then have "tx_script socket = [] \<or> \<not> isl (hd (tx_script socket))"
    using script by simp
  then obtain n socket1 where
    send: "raw_send socket (?prefix @ c) = (Inr n, socket1)"
    and s1: "tx_calls socket1 = tx_calls socket @ [?prefix @ c]"
      "tx_script socket1 = tl (tx_script socket)" "rx_script socket1 = rx_script socket"
    using raw_send_accepts by blast
  have p: "k < length (plaintext_chunks ?rest)" "k < length (tx_script socket1)"
      "tx_script socket1 ! k = Inl e" "\<forall>j < k. \<not> isl (tx_script socket1 ! j)"
    using Suc.prems chunks script s1(2) by auto
  from Suc.IH[OF p, of ?ctx']
  obtain socket' where
    rec: "hk_server_transport_encrypt_and_send_loop A socket1 ?ctx' keys ?rest L =
        (- 1, ?ctx'\<lparr>sent_frame_count := sent_frame_count ?ctx' + of_nat (Suc k)\<rparr>, socket')"
    and s': "tx_calls socket' =
        tx_calls socket1 @
        take (Suc k) (sent_frames A (response_key keys) (sent_frame_count ?ctx') ?rest)"
      "tx_script socket' = drop (Suc k) (tx_script socket1)"
      "rx_script socket' = rx_script socket1"
    by blast
  have "hk_server_transport_encrypt_and_send_loop A socket ctx keys pending L =
      hk_server_transport_encrypt_and_send_loop A socket1 ?ctx' keys ?rest L"
    using enc send by (simp add: encrypt_and_send_loop_step[OF ne])
  moreover have "tx_calls socket' =
      tx_calls socket @
      take (Suc (Suc k)) (sent_frames A (response_key keys) (sent_frame_count ctx) pending)"
    using s'(1) s1(1) frame by (simp add: sent_frames_step[OF ne])
  moreover have "tx_script socket' = drop (Suc (Suc k)) (tx_script socket)"
    using s'(2) s1(2) script by simp
  ultimately show ?case
    using rec s'(3) s1(3) by (simp add: add.assoc)
qed


subsection \<open>The send loop when a frame does not get through\<close>

lemma send_frame_fails_0:
  "pending \<noteq> [] \<Longrightarrow>
   send_frame_fails A key c script pending 0 \<longleftrightarrow>
     encrypt_buffer A key (frame_nonce c)
       (frame_length_prefix (length (take HK_MAX_DATA_SIZE pending)))
       (take HK_MAX_DATA_SIZE pending) = None \<or>
     (script \<noteq> [] \<and> isl (hd script))"
  by (cases script) (simp_all add: send_frame_fails_def plaintext_chunks_step)

lemma send_frame_fails_Suc:
  "pending \<noteq> [] \<Longrightarrow>
   send_frame_fails A key c script pending (Suc k) \<longleftrightarrow>
     send_frame_fails A key (c + 1) (tl script) (drop HK_MAX_DATA_SIZE pending) k"
  by (cases script) (simp_all add: send_frame_fails_def plaintext_chunks_step add.assoc)

text \<open>
  While the cipher and the socket let every frame through, every frame is handed to the
  socket and the counter ends advanced by the number of frames.
\<close>

lemma encrypt_and_send_loop_no_failure:
  assumes "\<forall>k < length (plaintext_chunks pending).
      \<not> send_frame_fails A (response_key keys) (sent_frame_count ctx) (tx_script socket)
          pending k"
  shows "\<exists>socket'.
     hk_server_transport_encrypt_and_send_loop A socket ctx keys pending L =
       (size_t_to_int (of_nat L),
        ctx\<lparr>sent_frame_count :=
          sent_frame_count ctx + of_nat (length (plaintext_chunks pending))\<rparr>,
        socket') \<and>
     tx_calls socket' =
       tx_calls socket @ sent_frames A (response_key keys) (sent_frame_count ctx) pending"
  using assms
proof (induction "length pending" arbitrary: pending socket ctx rule: less_induct)
  case less
  show ?case
  proof (cases "pending = []")
    case True
    then show ?thesis by (simp add: encrypt_and_send_loop_Nil)
  next
    case False
    let ?chunk = "take HK_MAX_DATA_SIZE pending"
    let ?rest = "drop HK_MAX_DATA_SIZE pending"
    let ?prefix = "frame_length_prefix (length ?chunk)"
    let ?ctx' = "ctx\<lparr>sent_frame_count := sent_frame_count ctx + 1\<rparr>"
    have chunks: "plaintext_chunks pending = ?chunk # plaintext_chunks ?rest"
      using False by (rule plaintext_chunks_step)
    have "\<not> send_frame_fails A (response_key keys) (sent_frame_count ctx) (tx_script socket)
        pending 0"
      using less.prems chunks by simp
    then obtain c where
      enc: "encrypt_buffer A (response_key keys) (frame_nonce (sent_frame_count ctx))
              ?prefix ?chunk = Some c"
      and ok: "tx_script socket = [] \<or> \<not> isl (hd (tx_script socket))"
      unfolding send_frame_fails_0[OF False] by auto
    from enc have frame: "wire_frame A (response_key keys) (sent_frame_count ctx) ?chunk =
        ?prefix @ c"
      by (simp add: wire_frame_def)
    from ok obtain n socket1 where
      send: "raw_send socket (?prefix @ c) = (Inr n, socket1)"
      and s1: "tx_calls socket1 = tx_calls socket @ [?prefix @ c]"
        "tx_script socket1 = tl (tx_script socket)"
      using raw_send_accepts by blast
    have shorter: "length ?rest < length pending"
      using False by (simp add: hk_consts)
    have rest: "\<forall>k < length (plaintext_chunks ?rest).
        \<not> send_frame_fails A (response_key keys) (sent_frame_count ?ctx') (tx_script socket1)
            ?rest k"
    proof (intro allI impI)
      fix k assume "k < length (plaintext_chunks ?rest)"
      then have "Suc k < length (plaintext_chunks pending)"
        using chunks by simp
      with less.prems have "\<not> send_frame_fails A (response_key keys) (sent_frame_count ctx)
          (tx_script socket) pending (Suc k)"
        by blast
      then show "\<not> send_frame_fails A (response_key keys) (sent_frame_count ?ctx')
          (tx_script socket1) ?rest k"
        unfolding send_frame_fails_Suc[OF False] using s1(2) by simp
    qed
    from less.hyps[OF shorter rest]
    obtain socket' where
      rec: "hk_server_transport_encrypt_and_send_loop A socket1 ?ctx' keys ?rest L =
          (size_t_to_int (of_nat L),
           ?ctx'\<lparr>sent_frame_count :=
             sent_frame_count ?ctx' + of_nat (length (plaintext_chunks ?rest))\<rparr>,
           socket')"
      and s': "tx_calls socket' =
          tx_calls socket1 @ sent_frames A (response_key keys) (sent_frame_count ?ctx') ?rest"
      by blast
    have "hk_server_transport_encrypt_and_send_loop A socket ctx keys pending L =
        hk_server_transport_encrypt_and_send_loop A socket1 ?ctx' keys ?rest L"
      using enc send by (simp add: encrypt_and_send_loop_step[OF False])
    moreover have "tx_calls socket' =
        tx_calls socket @ sent_frames A (response_key keys) (sent_frame_count ctx) pending"
      using s' s1(1) frame by (simp add: sent_frames_step[OF False])
    ultimately show ?thesis
      using rec chunks by (simp add: add.assoc)
  qed
qed

text \<open>
  The first frame that the cipher or the socket does not let through ends the loop with
  \<open>- 1\<close>. The counter was advanced before the cipher was called: it counts the failing
  frame as well.
\<close>

lemma encrypt_and_send_loop_first_failure:
  assumes "k < length (plaintext_chunks pending)"
    and "send_frame_fails A (response_key keys) (sent_frame_count ctx) (tx_script socket)
           pending k"
    and "\<forall>j < k. \<not> send_frame_fails A (response_key keys) (sent_frame_count ctx)
           (tx_script socket) pending j"
  shows "\<exists>socket'.
     hk_server_transport_encrypt_and_send_loop A socket ctx keys pending L =
       (- 1, ctx\<lparr>sent_frame_count := sent_frame_count ctx + of_nat (Suc k)\<rparr>, socket')"
  using assms
proof (induction k arbitrary: pending socket ctx)
  case 0
  then have ne: "pending \<noteq> []" by auto
  let ?chunk = "take HK_MAX_DATA_SIZE pending"
  let ?prefix = "frame_length_prefix (length ?chunk)"
  show ?case
  proof (cases "encrypt_buffer A (response_key keys) (frame_nonce (sent_frame_count ctx))
      ?prefix ?chunk")
    case None
    then show ?thesis
      by (simp add: encrypt_and_send_loop_step[OF ne] HTTPD_SOCK_ERR_FAIL_def)
  next
    case (Some c)
    with 0(2) have "tx_script socket \<noteq> []" "isl (hd (tx_script socket))"
      unfolding send_frame_fails_0[OF ne] by simp_all
    then obtain e rest where "tx_script socket = Inl e # rest"
      by (cases "tx_script socket"; cases "hd (tx_script socket)") auto
    from raw_send_fail[OF this] Some show ?thesis
      by (simp add: encrypt_and_send_loop_step[OF ne])
  qed
next
  case (Suc k)
  then have ne: "pending \<noteq> []" by auto
  let ?chunk = "take HK_MAX_DATA_SIZE pending"
  let ?rest = "drop HK_MAX_DATA_SIZE pending"
  let ?prefix = "frame_length_prefix (length ?chunk)"
  let ?ctx' = "ctx\<lparr>sent_frame_count := sent_frame_count ctx + 1\<rparr>"
  have chunks: "plaintext_chunks pending = ?chunk # plaintext_chunks ?rest"
    using ne by (rule plaintext_chunks_step)
  have "\<not> send_frame_fails A (response_key keys) (sent_frame_count ctx) (tx_script socket)
      pending 0"
    using Suc.prems(3) by simp
  then obtain c where
    enc: "encrypt_buffer A (response_key keys) (frame_nonce (sent_frame_count ctx))
            ?prefix ?chunk = Some c"
    and ok: "tx_script socket = [] \<or> \<not> isl (hd (tx_script socket))"
    unfolding send_frame_fails_0[OF ne] by auto
  from ok obtain n socket1 where
    send: "raw_send socket (?prefix @ c) = (Inr n, socket1)"
    and s1: "tx_script socket1 = tl (tx_script socket)"
    using raw_send_accepts by blast
  have p1: "k < length (plaintext_chunks ?rest)"
    using Suc.prems(1) chunks by simp
  have p2: "send_frame_fails A (response_key keys) (sent_frame_count ?ctx') (tx_script socket1)
      ?rest k"
    using Suc.prems(2) unfolding send_frame_fails_Suc[OF ne] s1 by simp
  have p3: "\<forall>j < k. \<not> send_frame_fails A (response_key keys) (sent_frame_count ?ctx')
      (tx_script socket1) ?rest j"
  proof (intro allI impI)
    fix j assume "j < k"
    then have "Suc j < Suc k" by simp
    with Suc.prems(3) have "\<not> send_frame_fails A (response_key keys) (sent_frame_count ctx)
        (tx_script socket) pending (Suc j)"
      by blast
    then show "\<not> send_frame_fails A (response_key keys) (sent_frame_count ?ctx')
        (tx_script socket1) ?rest j"
      unfolding send_frame_fails_Suc[OF ne] s1 by simp
  qed
  from Suc.IH[OF p1 p2 p3]
  obtain socket' where
    rec: "hk_server_transport_encrypt_and_send_loop A socket1 ?ctx' keys ?rest L =
        (- 1, ?ctx'\<lparr>sent_frame_count := sent_frame_count ?ctx' + of_nat (Suc k)\<rparr>, socket')"
    by blast
  have "hk_server_transport_encrypt_and_send_loop A socket ctx keys pending L =
      hk_server_transport_encrypt_and_send_loop A socket1 ?ctx' keys ?rest L"
    using enc send by (simp add: encrypt_and_send_loop_step[OF ne])
  with rec show ?case
    by (simp add: add.assoc)
qed

subsection \<open>Chunks and frames\<close>

lemma HK_MAX_DATA_SIZE_eq: "HK_MAX_DATA_SIZE = 1006"
  by (simp add: hk_consts)

lemma concat_plaintext_chunks: "concat (plaintext_chunks P) = P"
proof (induction "length P" arbitrary: P rule: less_induct)
  case less
  show ?case
  proof (cases "P = []")
    case True
    then show ?thesis by simp
  next
    case False
    then have "length (drop HK_MAX_DATA_SIZE P) < length P"
      by (simp add: HK_MAX_DATA_SIZE_eq)
    from less.hyps[OF this] show ?thesis
      by (simp add: plaintext_chunks_step[OF False])
  qed
qed

lemma plaintext_chunks_bounds:
  "chunk \<in> set (plaintext_chunks P) \<Longrightarrow> chunk \<noteq> [] \<and> length chunk \<le> HK_MAX_DATA_SIZE"
proof (induction "length P" arbitrary: P rule: less_induct)
  case less
  show ?case
  proof (cases "P = []")
    case True
    with less.prems show ?thesis by simp
  next
    case False
    then have shorter: "length (drop HK_MAX_DATA_SIZE P) < length P"
      by (simp add: HK_MAX_DATA_SIZE_eq)
    from less.prems have "chunk = take HK_MAX_DATA_SIZE P \<or>
        chunk \<in> set (plaintext_chunks (drop HK_MAX_DATA_SIZE P))"
      by (simp add: plaintext_chunks_step[OF False])
    then show ?thesis
    proof
      assume "chunk = take HK_MAX_DATA_SIZE P"
      then show ?thesis using False by (simp add: HK_MAX_DATA_SIZE_eq)
    next
      assume "chunk \<in> set (plaintext_chunks (drop HK_MAX_DATA_SIZE P))"
      then show ?thesis by (rule less.hyps[OF shorter])
    qed
  qed
qed

lemma plaintext_chunk_sizes:
  "map length (plaintext_chunks P) =
     replicate (length P div HK_MAX_DATA_SIZE) HK_MAX_DATA_SIZE @
     (if length P mod HK_MAX_DATA_SIZE = 0 then [] else [length P mod HK_MAX_DATA_SIZE])"
proof (induction "length P" arbitrary: P rule: less_induct)
  case less
  have pos: "0 < HK_MAX_DATA_SIZE" by (simp add: HK_MAX_DATA_SIZE_eq)
  show ?case
  proof (cases "P = []")
    case True
    then show ?thesis by simp
  next
    case False
    show ?thesis
    proof (cases "length P < HK_MAX_DATA_SIZE")
      case True
      then show ?thesis using False
        by (simp add: plaintext_chunks_step[OF False])
    next
      case long: False
      let ?rest = "drop HK_MAX_DATA_SIZE P"
      have shorter: "length ?rest < length P"
        using False pos by simp
      have d: "length P div HK_MAX_DATA_SIZE = Suc (length ?rest div HK_MAX_DATA_SIZE)"
        using long pos by (simp add: le_div_geq)
      have m: "length P mod HK_MAX_DATA_SIZE = length ?rest mod HK_MAX_DATA_SIZE"
        using long by (simp add: le_mod_geq)
      have "length (take HK_MAX_DATA_SIZE P) = HK_MAX_DATA_SIZE"
        using long by simp
      then show ?thesis
        using less.hyps[OF shorter]
        by (simp only: plaintext_chunks_step[OF False] list.map d m replicate_Suc append_Cons)
    qed
  qed
qed

lemma sent_frames_nth:
  "k < length (plaintext_chunks P) \<Longrightarrow>
   sent_frames A key c P ! k = wire_frame A key (c + of_nat k) (plaintext_chunks P ! k)"
  by (simp add: sent_frames_def nth_enumerate_eq)

lemma wire_frame_shape:
  assumes "aead_encrypts A" and "length chunk \<le> HK_MAX_DATA_SIZE"
  shows "length (wire_frame A key c chunk) = HK_AAD_SIZE + length chunk + HK_AUTHTAG_SIZE"
    and "take HK_AAD_SIZE (wire_frame A key c chunk) = frame_length_prefix (length chunk)"
    and "message_size_of False (wire_frame A key c chunk) = length chunk"
    and "framed (wire_frame A key c chunk)"
    and "frame_of_input False (wire_frame A key c chunk)"
proof -
  from assms(1) obtain ct where
    enc: "encrypt_buffer A key (frame_nonce c) (frame_length_prefix (length chunk)) chunk = Some ct"
    and len: "length ct = length chunk + HK_AUTHTAG_SIZE"
    unfolding aead_encrypts_def by blast
  then have frame: "wire_frame A key c chunk = frame_length_prefix (length chunk) @ ct"
    by (simp add: wire_frame_def)
  have plen: "length (frame_length_prefix (length chunk)) = 2"
    by (simp add: frame_length_prefix_def)
  show 1: "length (wire_frame A key c chunk) = HK_AAD_SIZE + length chunk + HK_AUTHTAG_SIZE"
    using frame len plen by (simp add: hk_consts)
  show 2: "take HK_AAD_SIZE (wire_frame A key c chunk) = frame_length_prefix (length chunk)"
    using frame plen by (simp add: hk_consts)
  have "length chunk < 65536"
    using assms(2) by (simp add: HK_MAX_DATA_SIZE_eq)
  then show 3: "message_size_of False (wire_frame A key c chunk) = length chunk"
    unfolding frame by (rule frame_length_prefix_decodes)
  show "framed (wire_frame A key c chunk)"
    using 1 2 assms(2) by (simp add: framed_def hk_consts)
  show "frame_of_input False (wire_frame A key c chunk)"
    using 1 3 by (simp add: frame_of_input_def)
qed

lemma sent_frames_shape:
  assumes "aead_encrypts A" and "frame \<in> set (sent_frames A key c P)"
  shows "framed frame" and "frame_of_input False frame"
proof -
  from assms(2) obtain k where k: "k < length (plaintext_chunks P)"
    and f: "frame = wire_frame A key (c + of_nat k) (plaintext_chunks P ! k)"
    by (auto simp: in_set_conv_nth sent_frames_nth)
  have "length (plaintext_chunks P ! k) \<le> HK_MAX_DATA_SIZE"
    using plaintext_chunks_bounds[of "plaintext_chunks P ! k" P] k by simp
  then show "framed frame" and "frame_of_input False frame"
    using wire_frame_shape[OF assms(1)] f by simp_all
qed

subsection \<open>Unfolding the decrypt loop\<close>

lemma write_at_Nil [simp]: "write_at buf off [] = buf"
  by (simp add: write_at_def)

lemma length_write_at:
  "off + length bs \<le> length buf \<Longrightarrow> length (write_at buf off bs) = length buf"
  by (simp add: write_at_def)

lemma write_at_append:
  assumes "off + length xs \<le> length buf"
  shows "write_at (write_at buf off xs) (off + length xs) ys = write_at buf off (xs @ ys)"
proof -
  have "length (take off buf) = off"
    using assms by simp
  then show ?thesis
    using assms by (simp add: write_at_def ac_simps)
qed

lemma take_write_at:
  "length bs \<le> length buf \<Longrightarrow> take (length bs) (write_at buf 0 bs) = bs"
  by (simp add: write_at_def)

lemma message_size_of_append:
  "2 \<le> length frame \<Longrightarrow> message_size_of cs (frame @ rest) = message_size_of cs frame"
proof -
  assume "2 \<le> length frame"
  then have "(frame @ rest) ! 0 = frame ! 0" "(frame @ rest) ! 1 = frame ! 1"
    by (auto simp: nth_append)
  then show ?thesis by (simp add: message_size_of_def)
qed

lemma received_plaintexts_Nil [simp]: "received_plaintexts A key c [] = []"
  by (simp add: received_plaintexts_def)

lemma received_plaintexts_Cons:
  "received_plaintexts A key c (frame # frames) =
     frame_plaintext A key c frame # received_plaintexts A key (c + 1) frames"
  by (simp add: received_plaintexts_def enumerate_shift[where n=0, simplified])

lemma length_received_plaintexts [simp]:
  "length (received_plaintexts A key c frames) = length frames"
  by (simp add: received_plaintexts_def)

lemma received_plaintexts_nth:
  "k < length frames \<Longrightarrow>
   received_plaintexts A key c frames ! k = frame_plaintext A key (c + of_nat k) (frames ! k)"
  by (simp add: received_plaintexts_def nth_enumerate_eq)

lemma decrypt_loop_done:
  "length_in \<le> offset_in \<Longrightarrow>
   hk_server_transport_decrypt_loop A cs ctx keys inp out length_in offset_in offset_out =
     Inr (size_t_to_int (of_nat offset_out), ctx, out)"
  by (subst hk_server_transport_decrypt_loop.simps) simp

lemma decrypt_loop_frame:
  assumes "frame_of_input cs frame"
    and "offset_out + message_size_of cs frame \<le> length out"
    and "length pre < length_in"
  shows "hk_server_transport_decrypt_loop A cs ctx keys (pre @ frame @ rest) out length_in
           (length pre) offset_out =
     (case frame_plaintext A (request_key keys) (received_frame_count ctx) frame of
        None \<Rightarrow>
          Inr (HTTPD_SOCK_ERR_FAIL,
               ctx\<lparr>received_frame_count := received_frame_count ctx + 1\<rparr>, out)
      | Some plain \<Rightarrow>
          hk_server_transport_decrypt_loop A cs
            (ctx\<lparr>received_frame_count := received_frame_count ctx + 1\<rparr>) keys
            (pre @ frame @ rest) (write_at out offset_out plain) length_in
            (length (pre @ frame)) (offset_out + message_size_of cs frame))"
proof -
  let ?m = "message_size_of cs frame"
  from assms(1) have len: "18 \<le> length frame" "?m + 18 = length frame"
    by (simp_all add: frame_of_input_def hk_consts)
  have enc: "drop (length pre) (pre @ frame @ rest) = frame @ rest"
    by simp
  have m: "message_size_of cs (frame @ rest) = ?m"
    using len(1) by (simp add: message_size_of_append)
  have aad: "take HK_AAD_SIZE (frame @ rest) = take HK_AAD_SIZE frame"
    using len(1) by (simp add: hk_consts)
  have msg: "take (?m + HK_AUTHTAG_SIZE) (drop HK_AAD_SIZE (frame @ rest)) =
      drop HK_AAD_SIZE frame"
    using len by (simp add: hk_consts)
  have fits: "\<not> length (frame @ rest) < HK_AAD_SIZE"
    "\<not> length (frame @ rest) < HK_AAD_SIZE + ?m + HK_AUTHTAG_SIZE"
    using len by (simp_all add: hk_consts)
  have next_in: "length pre + (?m + HK_AAD_SIZE + HK_AUTHTAG_SIZE) = length (pre @ frame)"
    using len by (simp add: hk_consts)
  have out: "\<not> length out < offset_out + ?m"
    using assms(2) by simp
  show ?thesis
    by (subst hk_server_transport_decrypt_loop.simps)
       (simp only: assms(3) if_True Let_def enc m aad msg fits if_False next_in out
          frame_plaintext_def)
qed

subsection \<open>The decrypt loop on a sequence of frames\<close>

lemma frame_plaintext_length:
  assumes "aead_decrypt_length A" and "frame_of_input cs frame"
    and "frame_plaintext A key c frame = Some plain"
  shows "length plain = message_size_of cs frame"
proof -
  from assms(1,3) have "length plain + HK_AUTHTAG_SIZE = length (drop HK_AAD_SIZE frame)"
    unfolding aead_decrypt_length_def frame_plaintext_def by blast
  with assms(2) show ?thesis
    unfolding frame_of_input_def length_drop by linarith
qed

text \<open>
  An input made of frames that all decrypt: frame \<open>k\<close> is read under the counter
  advanced \<open>k\<close> times, and the plaintexts are laid out one after the other. What the
  buffer holds behind the frames plays no part.
\<close>

lemma decrypt_loop_frames:
  assumes "aead_decrypt_length A"
    and "\<forall>frame \<in> set frames. frame_of_input cs frame"
    and "\<forall>p \<in> set (received_plaintexts A (request_key keys) (received_frame_count ctx) frames).
           p \<noteq> None"
    and "offset_out +
         length (concat (map the
           (received_plaintexts A (request_key keys) (received_frame_count ctx) frames)))
         \<le> length out"
  shows "hk_server_transport_decrypt_loop A cs ctx keys (pre @ concat frames @ tail) out
           (length pre + length (concat frames)) (length pre) offset_out =
     Inr (size_t_to_int (of_nat (offset_out +
            length (concat (map the
              (received_plaintexts A (request_key keys) (received_frame_count ctx) frames))))),
          ctx\<lparr>received_frame_count := received_frame_count ctx + of_nat (length frames)\<rparr>,
          write_at out offset_out
            (concat (map the
              (received_plaintexts A (request_key keys) (received_frame_count ctx) frames))))"
  using assms(2-)
proof (induction frames arbitrary: pre ctx out offset_out)
  case Nil
  then show ?case by (simp add: decrypt_loop_done)
next
  case (Cons frame frames)
  let ?key = "request_key keys"
  let ?c = "received_frame_count ctx"
  let ?ctx' = "ctx\<lparr>received_frame_count := ?c + 1\<rparr>"
  let ?rest = "concat (map the (received_plaintexts A ?key (?c + 1) frames))"
  from Cons.prems(2) obtain plain where plain: "frame_plaintext A ?key ?c frame = Some plain"
    by (auto simp: received_plaintexts_Cons)
  have wf: "frame_of_input cs frame"
    using Cons.prems(1) by simp
  then have "0 < length frame"
    by (auto simp: frame_of_input_def hk_consts)
  then have lt: "length pre < length pre + length (concat (frame # frames))"
    by simp
  have m: "length plain = message_size_of cs frame"
    using assms(1) wf plain by (rule frame_plaintext_length)
  have fit: "offset_out + length plain + length ?rest \<le> length out"
    using Cons.prems(3) plain by (simp add: received_plaintexts_Cons)
  then have fit1: "offset_out + message_size_of cs frame \<le> length out"
    using m by simp
  have len1: "length (write_at out offset_out plain) = length out"
    using fit by (simp add: length_write_at)
  have step: "hk_server_transport_decrypt_loop A cs ctx keys
        (pre @ concat (frame # frames) @ tail) out
        (length pre + length (concat (frame # frames))) (length pre) offset_out =
      hk_server_transport_decrypt_loop A cs ?ctx' keys ((pre @ frame) @ concat frames @ tail)
        (write_at out offset_out plain) (length (pre @ frame) + length (concat frames))
        (length (pre @ frame)) (offset_out + length plain)"
    using decrypt_loop_frame[OF wf fit1 lt, where A = A and ctx = ctx and keys = keys
        and rest = "concat frames @ tail"] plain m
    by (simp add: add.assoc)
  have p1: "\<forall>frame \<in> set frames. frame_of_input cs frame"
    using Cons.prems(1) by simp
  have p2: "\<forall>p \<in> set (received_plaintexts A ?key (received_frame_count ?ctx') frames).
      p \<noteq> None"
    using Cons.prems(2) by (simp add: received_plaintexts_Cons)
  have p3: "offset_out + length plain +
      length (concat (map the
        (received_plaintexts A ?key (received_frame_count ?ctx') frames)))
      \<le> length (write_at out offset_out plain)"
    using fit len1 by simp
  have wr: "write_at (write_at out offset_out plain) (offset_out + length plain) ?rest =
      write_at out offset_out (plain @ ?rest)"
    using fit by (simp add: write_at_append)
  show ?case
    unfolding step
    using Cons.IH[OF p1 p2 p3, of "pre @ frame"] plain wr
    by (simp add: received_plaintexts_Cons add.assoc)
qed

text \<open>
  An input whose frame \<open>j\<close> is the first that does not decrypt: the operation stops there
  with the failure code, the counter advanced for the failing frame as well, and the
  plaintexts of the frames before it left in the output buffer.
\<close>

lemma decrypt_loop_failure:
  assumes "aead_decrypt_length A"
    and "\<forall>frame \<in> set frames. frame_of_input cs frame"
    and "j < length frames"
    and "\<forall>i < j. received_plaintexts A (request_key keys) (received_frame_count ctx) frames ! i
           \<noteq> None"
    and "received_plaintexts A (request_key keys) (received_frame_count ctx) frames ! j = None"
    and "offset_out +
         length (concat (map the (take j
           (received_plaintexts A (request_key keys) (received_frame_count ctx) frames)))) +
         message_size_of cs (frames ! j) \<le> length out"
  shows "hk_server_transport_decrypt_loop A cs ctx keys (pre @ concat frames @ tail) out
           (length pre + length (concat frames)) (length pre) offset_out =
     Inr (HTTPD_SOCK_ERR_FAIL,
          ctx\<lparr>received_frame_count := received_frame_count ctx + of_nat (Suc j)\<rparr>,
          write_at out offset_out
            (concat (map the (take j
              (received_plaintexts A (request_key keys) (received_frame_count ctx) frames)))))"
  using assms(2-)
proof (induction j arbitrary: frames pre ctx out offset_out)
  case 0
  then obtain frame rest where frames: "frames = frame # rest"
    by (cases frames) auto
  have wf: "frame_of_input cs frame"
    using 0(1) frames by simp
  then have "0 < length frame"
    by (auto simp: frame_of_input_def hk_consts)
  then have lt: "length pre < length pre + length (concat frames)"
    using frames by simp
  have none: "frame_plaintext A (request_key keys) (received_frame_count ctx) frame = None"
    using 0(4) frames by (simp add: received_plaintexts_Cons)
  have fit: "offset_out + message_size_of cs frame \<le> length out"
    using 0(5) frames by simp
  show ?case
    using decrypt_loop_frame[OF wf fit lt, where A = A and ctx = ctx and keys = keys
        and rest = "concat rest @ tail"] none frames
    by simp
next
  case (Suc j)
  then obtain frame rest where frames: "frames = frame # rest"
    by (cases frames) auto
  let ?key = "request_key keys"
  let ?c = "received_frame_count ctx"
  let ?ctx' = "ctx\<lparr>received_frame_count := ?c + 1\<rparr>"
  let ?before = "concat (map the (take j (received_plaintexts A ?key (?c + 1) rest)))"
  have wf: "frame_of_input cs frame"
    using Suc.prems(1) frames by simp
  then have "0 < length frame"
    by (auto simp: frame_of_input_def hk_consts)
  then have lt: "length pre < length pre + length (concat frames)"
    using frames by simp
  from Suc.prems(3)[rule_format, of 0] obtain plain where
    plain: "frame_plaintext A ?key ?c frame = Some plain"
    using frames by (auto simp: received_plaintexts_Cons)
  have m: "length plain = message_size_of cs frame"
    using assms(1) wf plain by (rule frame_plaintext_length)
  have fit: "offset_out + length plain + length ?before + message_size_of cs (rest ! j)
      \<le> length out"
    using Suc.prems(5) plain frames by (simp add: received_plaintexts_Cons)
  then have fit1: "offset_out + message_size_of cs frame \<le> length out"
    using m by simp
  have len1: "length (write_at out offset_out plain) = length out"
    using fit by (simp add: length_write_at)
  have step: "hk_server_transport_decrypt_loop A cs ctx keys (pre @ concat frames @ tail) out
        (length pre + length (concat frames)) (length pre) offset_out =
      hk_server_transport_decrypt_loop A cs ?ctx' keys ((pre @ frame) @ concat rest @ tail)
        (write_at out offset_out plain) (length (pre @ frame) + length (concat rest))
        (length (pre @ frame)) (offset_out + length plain)"
    using decrypt_loop_frame[OF wf fit1 lt, where A = A and ctx = ctx and keys = keys
        and rest = "concat rest @ tail"] plain m frames
    by (simp add: add.assoc)
  have p1: "\<forall>frame \<in> set rest. frame_of_input cs frame"
    using Suc.prems(1) frames by simp
  have p2: "j < length rest"
    using Suc.prems(2) frames by simp
  have p3: "\<forall>i < j. received_plaintexts A ?key (received_frame_count ?ctx') rest ! i \<noteq> None"
  proof (intro allI impI)
    fix i assume "i < j"
    then have "Suc i < Suc j" by simp
    from Suc.prems(3)[rule_format, OF this] show
      "received_plaintexts A ?key (received_frame_count ?ctx') rest ! i \<noteq> None"
      using frames by (simp add: received_plaintexts_Cons)
  qed
  have p4: "received_plaintexts A ?key (received_frame_count ?ctx') rest ! j = None"
    using Suc.prems(4) frames by (simp add: received_plaintexts_Cons)
  have p5: "offset_out + length plain +
      length (concat (map the (take j
        (received_plaintexts A ?key (received_frame_count ?ctx') rest)))) +
      message_size_of cs (rest ! j) \<le> length (write_at out offset_out plain)"
    using fit len1 by simp
  have wr: "write_at (write_at out offset_out plain) (offset_out + length plain) ?before =
      write_at out offset_out (plain @ ?before)"
    using fit by (simp add: write_at_append)
  show ?case
    unfolding step
    using Suc.IH[OF p1 p2 p3 p4 p5, of "pre @ frame"] plain wr frames
    by (simp add: received_plaintexts_Cons add.assoc)
qed

subsection \<open>The length field and the null check\<close>

lemma size_t_to_int_of_nat:
  assumes "n < 2 ^ 31"
  shows "size_t_to_int (of_nat n) = int n"
proof -
  have "size_t_to_int (of_nat n) = signed_take_bit 31 (int n)"
    by (simp add: size_t_to_int_def signed_of_nat)
  also have "\<dots> = int n"
    using assms by (intro signed_take_bit_int_eq_self) simp_all
  finally show ?thesis .
qed

lemma decrypt_single_frame:
  assumes "frame_of_input cs frame" and "message_size_of cs frame \<le> length out"
  shows "hk_server_transport_decrypt A cs ctx keys (frame @ tail) out (length frame) =
     (case decrypt_buffer A (request_key keys) (frame_nonce (received_frame_count ctx))
             (take HK_AAD_SIZE frame) (drop HK_AAD_SIZE frame) of
        None \<Rightarrow>
          Inr (HTTPD_SOCK_ERR_FAIL,
               ctx\<lparr>received_frame_count := received_frame_count ctx + 1\<rparr>, out)
      | Some plain \<Rightarrow>
          Inr (size_t_to_int (of_nat (message_size_of cs frame)),
               ctx\<lparr>received_frame_count := received_frame_count ctx + 1\<rparr>,
               write_at out 0 plain))"
proof -
  have fit: "0 + message_size_of cs frame \<le> length out"
    using assms(2) by simp
  have "0 < length frame"
    using assms(1) by (auto simp: frame_of_input_def hk_consts)
  then have lt: "length ([] :: byte list) < length frame"
    by simp
  show ?thesis
    using decrypt_loop_frame[OF assms(1) fit lt, where A = A and ctx = ctx and keys = keys
        and rest = tail]
    by (simp add: hk_server_transport_decrypt_def frame_plaintext_def decrypt_loop_done
        split: option.splits)
qed

text \<open>
  C5: for every input frame the decrypt operation reads \<open>message_size\<close> as the unsigned
  little-endian 16-bit value of the frame's first two bytes, each byte counting as a value
  from 0 to 255, also when a byte is 0x80 or above. The bytes are plain \<^verbatim>\<open>char\<close>s, so this
  is the reading of a compiler whose \<^verbatim>\<open>char\<close> is unsigned, as on the ESP32. The second
  part shows what the operation does with the value: it hands that many bytes, and the 16
  of the tag, to the cipher and reports that many bytes of plaintext.
\<close>

theorem decrypt_reads_little_endian_length:
  assumes "\<not> char_signed"
  shows "message_size_of char_signed (b0 # b1 # rest) = unat b0 + 256 * unat b1 \<and>
    (length rest = unat b0 + 256 * unat b1 + HK_AUTHTAG_SIZE \<longrightarrow>
     unat b0 + 256 * unat b1 \<le> length out \<longrightarrow>
     hk_server_transport_decrypt A char_signed ctx keys (b0 # b1 # rest) out
         (length (b0 # b1 # rest)) =
       (case decrypt_buffer A (request_key keys) (frame_nonce (received_frame_count ctx))
               [b0, b1] rest of
          None \<Rightarrow>
            Inr (HTTPD_SOCK_ERR_FAIL,
                 ctx\<lparr>received_frame_count := received_frame_count ctx + 1\<rparr>, out)
        | Some plain \<Rightarrow>
            Inr (int (unat b0 + 256 * unat b1),
                 ctx\<lparr>received_frame_count := received_frame_count ctx + 1\<rparr>,
                 write_at out 0 plain)))"
proof (intro conjI impI)
  from assms have cs: "char_signed = False" by simp
  show m: "message_size_of char_signed (b0 # b1 # rest) = unat b0 + 256 * unat b1"
    unfolding cs by (rule message_size_unsigned)
  assume len: "length rest = unat b0 + 256 * unat b1 + HK_AUTHTAG_SIZE"
    and fit: "unat b0 + 256 * unat b1 \<le> length out"
  have wf: "frame_of_input char_signed (b0 # b1 # rest)"
    using m len by (simp add: frame_of_input_def hk_consts)
  have "unat b0 + 256 * unat b1 < 2 ^ 31"
    using unat_byte_less[of b0] unat_byte_less[of b1] by simp
  then have ret: "size_t_to_int (of_nat (unat b0 + 256 * unat b1)) =
      int (unat b0 + 256 * unat b1)"
    by (rule size_t_to_int_of_nat)
  have fit': "message_size_of char_signed (b0 # b1 # rest) \<le> length out"
    using m fit by simp
  show "hk_server_transport_decrypt A char_signed ctx keys (b0 # b1 # rest) out
         (length (b0 # b1 # rest)) =
       (case decrypt_buffer A (request_key keys) (frame_nonce (received_frame_count ctx))
               [b0, b1] rest of
          None \<Rightarrow>
            Inr (HTTPD_SOCK_ERR_FAIL,
                 ctx\<lparr>received_frame_count := received_frame_count ctx + 1\<rparr>, out)
        | Some plain \<Rightarrow>
            Inr (int (unat b0 + 256 * unat b1),
                 ctx\<lparr>received_frame_count := received_frame_count ctx + 1\<rparr>,
                 write_at out 0 plain))"
    using decrypt_single_frame[OF wf fit', where tail = "[]" and A = A and ctx = ctx
        and keys = keys]
    unfolding m ret
    by (simp add: hk_consts)
qed

text \<open>
  The theorem at a frame whose length field is \<open>0x83 0x01\<close>: 131 + 256 = 387.
\<close>

theorem decrypt_reads_little_endian_length_witness:
  "\<not> False \<and> length (replicate 403 (0 :: byte)) = unat (131 :: byte) + 256 * unat (1 :: byte) + HK_AUTHTAG_SIZE \<and>
   unat (131 :: byte) + 256 * unat (1 :: byte) \<le> length (replicate HK_MAX_RECV_SIZE (0 :: byte)) \<and>
   message_size_of False (131 # 1 # replicate 403 0) = 387 \<and>
   hk_server_transport_decrypt toy_aead False secure_context toy_keys
       (131 # 1 # replicate 403 0) (replicate HK_MAX_RECV_SIZE 0) 405 =
     (case decrypt_buffer toy_aead (request_key toy_keys)
             (frame_nonce (received_frame_count secure_context)) [131, 1] (replicate 403 0) of
        None \<Rightarrow>
          Inr (HTTPD_SOCK_ERR_FAIL,
               secure_context\<lparr>received_frame_count := received_frame_count secure_context + 1\<rparr>,
               replicate HK_MAX_RECV_SIZE 0)
      | Some plain \<Rightarrow>
          Inr (387,
               secure_context\<lparr>received_frame_count := received_frame_count secure_context + 1\<rparr>,
               write_at (replicate HK_MAX_RECV_SIZE 0) 0 plain))"
proof -
  have h1: "\<not> False" by simp
  have h2: "length (replicate 403 (0 :: byte)) =
      unat (131 :: byte) + 256 * unat (1 :: byte) + HK_AUTHTAG_SIZE"
    by (simp add: hk_consts)
  have h3: "unat (131 :: byte) + 256 * unat (1 :: byte) \<le>
      length (replicate HK_MAX_RECV_SIZE (0 :: byte))"
    by (simp add: hk_consts)
  from decrypt_reads_little_endian_length[OF h1, of 131 1 "replicate 403 0"
      "replicate HK_MAX_RECV_SIZE 0" toy_aead secure_context toy_keys] h2 h3
  show ?thesis by (simp split: option.splits)
qed

text \<open>
  C9: a call of the send entry point with a null buffer is to report an invalid argument
  before anything else happens, with no access to the buffer. The function hands the buffer
  to \<^verbatim>\<open>memcpy\<close> first, for its log line: with a null buffer it reads through the null
  pointer (with a length of 0 it still hands \<^verbatim>\<open>memcpy\<close> a null pointer) and never reports
  the invalid argument. The receive entry point, which checks first, reports it for every
  length.
\<close>

theorem send_reads_null_buffer_before_check:
  "hk_server_transport_send A ctx keys socket None (Suc n) = Inl NullPointerRead \<and>
   hk_server_transport_send A ctx keys socket None 0 = Inl NullPointerRead \<and>
   hk_server_transport_recv A cs ctx keys socket True n stale =
     Inr (HTTPD_SOCK_ERR_INVALID, [], ctx, socket)"
proof (intro conjI)
  show "hk_server_transport_send A ctx keys socket None (Suc n) = Inl NullPointerRead"
    by (simp add: hk_server_transport_send_def)
  show "hk_server_transport_send A ctx keys socket None 0 = Inl NullPointerRead"
    by (simp add: hk_server_transport_send_def)
  show "hk_server_transport_recv A cs ctx keys socket True n stale =
      Inr (HTTPD_SOCK_ERR_INVALID, [], ctx, socket)"
    by (simp add: hk_server_transport_recv_def)
qed

subsection \<open>Running the receive path on the test double\<close>

lemmas toy_defs = toy_aead_def toy_pad_def toy_tag_def toy_keys_def idle_socket_def
  secure_context_def hk_server_transport_context_init_def
  hk_server_transport_set_session_secure_def frame_nonce_def frame_length_prefix_def

lemma secure_context_fields:
  "is_secure secure_context"
  "received_length secure_context = 0"
  "received_submitted_length secure_context = 0"
  "received_frame_count secure_context = 0"
  "sent_frame_count secure_context = 0"
  "received_buffer secure_context = replicate HK_MAX_RECV_SIZE 0"
  by (simp_all add: toy_defs)

lemma decrypt_buffered_example:
  "hk_server_transport_decrypt toy_aead False
     (secure_context\<lparr>received_buffer := replicate HK_MAX_RECV_SIZE 0,
        received_submitted_length := 0\<rparr>)
     toy_keys (4 # 0 # 13 # 23 # 33 # 43 # replicate 16 107 @ tail)
     (replicate HK_MAX_RECV_SIZE 0) 22 =
   Inr (4,
        secure_context\<lparr>received_buffer := replicate HK_MAX_RECV_SIZE 0,
          received_submitted_length := 0, received_frame_count := 1\<rparr>,
        10 # 20 # 30 # 40 # replicate 1020 0)"
proof -
  let ?frame = "4 # 0 # 13 # 23 # 33 # 43 # replicate 16 (107 :: byte)"
  let ?ctx = "secure_context\<lparr>received_buffer := replicate HK_MAX_RECV_SIZE 0,
    received_submitted_length := 0\<rparr>"
  have wf: "frame_of_input False ?frame"
    by (simp add: frame_of_input_def message_size_unsigned hk_consts)
  have fit: "message_size_of False ?frame \<le> length (replicate HK_MAX_RECV_SIZE (0 :: byte))"
    by (simp add: message_size_unsigned hk_consts)
  have plain: "decrypt_buffer toy_aead [1, 2] (frame_nonce 0) [4, 0]
      (13 # 23 # 33 # 43 # replicate 16 107) = Some [10, 20, 30, 40]"
    by (simp add: toy_defs hk_consts Let_def)
  have key: "request_key toy_keys = [1, 2]"
    by (simp add: toy_keys_def)
  have c: "received_frame_count ?ctx = 0"
    by (simp add: secure_context_fields)
  have parts: "take HK_AAD_SIZE ?frame = [4, 0]"
    "drop HK_AAD_SIZE ?frame = 13 # 23 # 33 # 43 # replicate 16 107"
    by (simp_all add: hk_consts)
  have "hk_server_transport_decrypt toy_aead False ?ctx toy_keys (?frame @ tail)
      (replicate HK_MAX_RECV_SIZE 0) (length ?frame) =
      Inr (4, ?ctx\<lparr>received_frame_count := 1\<rparr>, 10 # 20 # 30 # 40 # replicate 1020 0)"
    unfolding decrypt_single_frame[OF wf fit] key c parts plain
    by (simp add: message_size_unsigned size_t_to_int_def write_at_def hk_consts)
  then show ?thesis by simp
qed

text \<open>
  With unconsumed bytes in the buffer, a receive call does no raw read; it returns the
  first \<open>copy_length\<close> bytes of the buffer, whatever has been consumed before.
\<close>

lemma recv_buffered:
  assumes "is_secure ctx"
    and "received_length ctx \<noteq> received_submitted_length ctx"
    and "min n (unat (received_length ctx - received_submitted_length ctx))
         \<le> length (received_buffer ctx)"
  shows "hk_server_transport_recv A cs ctx keys socket False n stale =
     Inr (size_t_to_int
            (of_nat (min n (unat (received_length ctx - received_submitted_length ctx)))),
          take (min n (unat (received_length ctx - received_submitted_length ctx)))
            (received_buffer ctx),
          ctx\<lparr>received_submitted_length :=
            received_submitted_length ctx +
            of_nat (min n (unat (received_length ctx - received_submitted_length ctx)))\<rparr>,
          socket)"
proof -
  have "received_length ctx - received_submitted_length ctx \<noteq> 0"
    using assms(2) by simp
  then have "\<not> received_length ctx - received_submitted_length ctx < 1"
    by (simp add: word_less_1)
  moreover have "\<not> length (received_buffer ctx) <
      min n (unat (received_length ctx - received_submitted_length ctx))"
    using assms(3) by (simp only: not_less)
  ultimately show ?thesis
    using assms(1)
    by (simp only: hk_server_transport_recv_def hk_server_transport_submit_def Let_def
        if_False if_True)
qed

text \<open>
  C1: in secure mode every receive call is to copy out of the receive buffer from the
  offset of what was already consumed, so that successive calls return consecutive regions
  of the decrypted plaintext. The function copies from the start of the buffer every time
  (\<^verbatim>\<open>memcpy(buffer, transport_context->received_buffer, copy_length)\<close>): the counts and
  the consumed length are as the claim says, the bytes are not. Here one raw read
  decrypts to the four bytes 10, 20, 30, 40, and two calls for two bytes each both
  return 10, 20.
\<close>

theorem recv_copies_from_buffer_start_again:
  "hk_server_transport_recv toy_aead False secure_context toy_keys
     (idle_socket\<lparr>rx_script := [Inr ([4, 0, 13, 23, 33, 43] @ replicate 16 107)]\<rparr>) False 2
     stale =
   Inr (2, [10, 20],
        secure_context\<lparr>received_buffer := [10, 20, 30, 40] @ replicate 1020 0,
          received_submitted_length := 2, received_length := 4, received_frame_count := 1\<rparr>,
        idle_socket) \<and>
   hk_server_transport_recv toy_aead False
     (secure_context\<lparr>received_buffer := [10, 20, 30, 40] @ replicate 1020 0,
        received_submitted_length := 2, received_length := 4, received_frame_count := 1\<rparr>)
     toy_keys idle_socket False 2 stale =
   Inr (2, [10, 20],
        secure_context\<lparr>received_buffer := [10, 20, 30, 40] @ replicate 1020 0,
          received_submitted_length := 4, received_length := 4, received_frame_count := 1\<rparr>,
        idle_socket)"
proof
  have raw: "raw_recv
      (idle_socket\<lparr>rx_script := [Inr (4 # 0 # 13 # 23 # 33 # 43 # replicate 16 107)]\<rparr>)
      HK_MAX_RECV_SIZE = (Inr (4 # 0 # 13 # 23 # 33 # 43 # replicate 16 107), idle_socket)"
    by (simp add: raw_recv.simps idle_socket_def hk_consts)
  show "hk_server_transport_recv toy_aead False secure_context toy_keys
     (idle_socket\<lparr>rx_script := [Inr ([4, 0, 13, 23, 33, 43] @ replicate 16 107)]\<rparr>) False 2
     stale =
   Inr (2, [10, 20],
        secure_context\<lparr>received_buffer := [10, 20, 30, 40] @ replicate 1020 0,
          received_submitted_length := 2, received_length := 4, received_frame_count := 1\<rparr>,
        idle_socket)"
    by (simp add: hk_server_transport_recv_def secure_context_fields raw Let_def
        decrypt_buffered_example hk_server_transport_submit_def int_to_size_t_def
        size_t_to_int_def)
  show "hk_server_transport_recv toy_aead False
     (secure_context\<lparr>received_buffer := [10, 20, 30, 40] @ replicate 1020 0,
        received_submitted_length := 2, received_length := 4, received_frame_count := 1\<rparr>)
     toy_keys idle_socket False 2 stale =
   Inr (2, [10, 20],
        secure_context\<lparr>received_buffer := [10, 20, 30, 40] @ replicate 1020 0,
          received_submitted_length := 4, received_length := 4, received_frame_count := 1\<rparr>,
        idle_socket)"
    by (simp add: hk_server_transport_recv_def secure_context_fields Let_def
        hk_server_transport_submit_def size_t_to_int_def)
qed

lemma decrypt_failing_example:
  "hk_server_transport_decrypt toy_aead False
     (secure_context\<lparr>received_buffer := replicate HK_MAX_RECV_SIZE 0,
        received_submitted_length := 0\<rparr>)
     toy_keys (1 # 0 # 68 # replicate 16 69 @ 1 # 0 # 0 # replicate 16 0 @ tail)
     (replicate HK_MAX_RECV_SIZE 0) 38 =
   Inr (HTTPD_SOCK_ERR_FAIL,
        secure_context\<lparr>received_buffer := replicate HK_MAX_RECV_SIZE 0,
          received_submitted_length := 0, received_frame_count := 2\<rparr>,
        65 # replicate 1023 0)"
proof -
  let ?good = "1 # 0 # 68 # replicate 16 (69 :: byte)"
  let ?bad = "1 # 0 # 0 # replicate 16 (0 :: byte)"
  let ?ctx = "secure_context\<lparr>received_buffer := replicate HK_MAX_RECV_SIZE 0,
    received_submitted_length := 0\<rparr>"
  let ?ctx1 = "?ctx\<lparr>received_frame_count := received_frame_count ?ctx + 1\<rparr>"
  let ?out = "replicate HK_MAX_RECV_SIZE (0 :: byte)"
  have wf: "frame_of_input False ?good" "frame_of_input False ?bad"
    by (simp_all add: frame_of_input_def message_size_unsigned hk_consts)
  have m: "message_size_of False ?good = 1" "message_size_of False ?bad = 1"
    by (simp_all add: message_size_unsigned)
  have key: "request_key toy_keys = [1, 2]"
    by (simp add: toy_keys_def)
  have good: "frame_plaintext toy_aead (request_key toy_keys) (received_frame_count ?ctx) ?good =
      Some [65]"
    by (simp add: frame_plaintext_def secure_context_fields key toy_defs hk_consts Let_def)
  have bad: "frame_plaintext toy_aead (request_key toy_keys) (received_frame_count ?ctx1) ?bad =
      None"
    by (simp add: frame_plaintext_def secure_context_fields key toy_defs hk_consts Let_def)
  have fit: "0 + message_size_of False ?good \<le> length ?out"
    by (simp add: m hk_consts)
  have out1: "write_at ?out 0 [65] = 65 # replicate 1023 0"
    by (simp add: write_at_def hk_consts)
  have fit1: "0 + message_size_of False ?good + message_size_of False ?bad \<le>
      length (write_at ?out 0 [65])"
    by (simp add: m out1)
  have lt: "length ([] :: byte list) < 38" "length ?good < 38"
    by simp_all
  have "hk_server_transport_decrypt toy_aead False ?ctx toy_keys (?good @ ?bad @ tail) ?out 38 =
      hk_server_transport_decrypt_loop toy_aead False ?ctx1 toy_keys ([] @ ?good @ ?bad @ tail)
        (write_at ?out 0 [65]) 38 (length ([] @ ?good)) (0 + message_size_of False ?good)"
    unfolding hk_server_transport_decrypt_def
    using decrypt_loop_frame[OF wf(1) fit lt(1), where A = toy_aead and ctx = ?ctx
        and keys = toy_keys and rest = "?bad @ tail"] good
    by simp
  also have "\<dots> = hk_server_transport_decrypt_loop toy_aead False ?ctx1 toy_keys
      (?good @ ?bad @ tail) (write_at ?out 0 [65]) 38 (length ?good)
      (0 + message_size_of False ?good)"
    by simp
  also have "\<dots> = Inr (HTTPD_SOCK_ERR_FAIL,
      ?ctx1\<lparr>received_frame_count := received_frame_count ?ctx1 + 1\<rparr>, write_at ?out 0 [65])"
    using decrypt_loop_frame[OF wf(2) fit1 lt(2), where A = toy_aead and ctx = ?ctx1
        and keys = toy_keys and rest = tail] bad
    by simp
  finally show ?thesis
    by (simp add: out1 secure_context_fields)
qed

text \<open>
  C3: when a frame of a multi-frame decrypt fails, no plaintext of that operation is ever
  to reach the upper layer, neither from the failing receive call nor from a later one.
  The receive function stores the result of the decrypt operation in \<open>received_length\<close>
  before it looks at its sign: after a failure the field holds the failure code as a
  \<^verbatim>\<open>size_t\<close>, \<open>2 ^ 32 - 1\<close>, and the buffer holds the frames decrypted before the
  failing one. Here a good frame (plaintext 65) is followed by a frame with a wrong tag:
  the first call fails, the second call returns the byte 65 without a raw read.
\<close>

theorem recv_after_failed_decrypt_returns_partial_plaintext:
  "hk_server_transport_recv toy_aead False secure_context toy_keys
     (idle_socket\<lparr>rx_script :=
        [Inr ([1, 0, 68] @ replicate 16 69 @ [1, 0, 0] @ replicate 16 0)]\<rparr>) False 16 stale =
   Inr (HTTPD_SOCK_ERR_FAIL, [],
        secure_context\<lparr>received_buffer := 65 # replicate 1023 0,
          received_length := 4294967295, received_frame_count := 2\<rparr>,
        idle_socket) \<and>
   hk_server_transport_recv toy_aead False
     (secure_context\<lparr>received_buffer := 65 # replicate 1023 0,
        received_length := 4294967295, received_frame_count := 2\<rparr>)
     toy_keys idle_socket False 1 stale =
   Inr (1, [65],
        secure_context\<lparr>received_buffer := 65 # replicate 1023 0,
          received_submitted_length := 1, received_length := 4294967295,
          received_frame_count := 2\<rparr>,
        idle_socket)"
proof
  have raw: "raw_recv
      (idle_socket\<lparr>rx_script :=
         [Inr (1 # 0 # 68 # replicate 16 69 @ 1 # 0 # 0 # replicate 16 0)]\<rparr>)
      HK_MAX_RECV_SIZE =
      (Inr (1 # 0 # 68 # replicate 16 69 @ 1 # 0 # 0 # replicate 16 0), idle_socket)"
    by (simp add: raw_recv.simps idle_socket_def hk_consts)
  show "hk_server_transport_recv toy_aead False secure_context toy_keys
     (idle_socket\<lparr>rx_script :=
        [Inr ([1, 0, 68] @ replicate 16 69 @ [1, 0, 0] @ replicate 16 0)]\<rparr>) False 16 stale =
   Inr (HTTPD_SOCK_ERR_FAIL, [],
        secure_context\<lparr>received_buffer := 65 # replicate 1023 0,
          received_length := 4294967295, received_frame_count := 2\<rparr>,
        idle_socket)"
    by (simp add: hk_server_transport_recv_def secure_context_fields raw Let_def
        decrypt_failing_example int_to_size_t_def)
       (simp add: HTTPD_SOCK_ERR_FAIL_def secure_context_def
          hk_server_transport_set_session_secure_def hk_server_transport_context_init_def)
  show "hk_server_transport_recv toy_aead False
     (secure_context\<lparr>received_buffer := 65 # replicate 1023 0,
        received_length := 4294967295, received_frame_count := 2\<rparr>)
     toy_keys idle_socket False 1 stale =
   Inr (1, [65],
        secure_context\<lparr>received_buffer := 65 # replicate 1023 0,
          received_submitted_length := 1, received_length := 4294967295,
          received_frame_count := 2\<rparr>,
        idle_socket)"
    by (simp add: hk_server_transport_recv_def secure_context_fields Let_def
        hk_server_transport_submit_def size_t_to_int_def)
qed

subsection \<open>Frame counters beyond the nonce\<close>

lemma encrypt_and_send_loop_period:
  "hk_server_transport_encrypt_and_send_loop A socket
     (ctx\<lparr>sent_frame_count := sent_frame_count ctx + 65536\<rparr>) keys pending L =
   (case hk_server_transport_encrypt_and_send_loop A socket ctx keys pending L of
      (ret, ctx', socket') \<Rightarrow>
        (ret, ctx'\<lparr>sent_frame_count := sent_frame_count ctx' + 65536\<rparr>, socket'))"
proof (induction "length pending" arbitrary: pending socket ctx rule: less_induct)
  case less
  show ?case
  proof (cases "pending = []")
    case True
    then show ?thesis by (simp add: encrypt_and_send_loop_Nil)
  next
    case False
    then have shorter: "length (drop HK_MAX_DATA_SIZE pending) < length pending"
      by (simp add: hk_consts)
    show ?thesis
      using less.hyps[OF shorter, of _ "ctx\<lparr>sent_frame_count := sent_frame_count ctx + 1\<rparr>"]
      by (simp add: encrypt_and_send_loop_step[OF False] frame_nonce_period
          split: option.splits sum.splits prod.splits)
  qed
qed

lemma decrypt_loop_period:
  "hk_server_transport_decrypt_loop A cs
     (ctx\<lparr>received_frame_count := received_frame_count ctx + 65536\<rparr>) keys inp out
     length_in offset_in offset_out =
   (case hk_server_transport_decrypt_loop A cs ctx keys inp out length_in offset_in offset_out of
      Inl f \<Rightarrow> Inl f
    | Inr (ret, ctx', out') \<Rightarrow>
        Inr (ret, ctx'\<lparr>received_frame_count := received_frame_count ctx' + 65536\<rparr>, out'))"
proof (induction "length_in - offset_in" arbitrary: ctx out offset_in offset_out
    rule: less_induct)
  case less
  show ?case
  proof (cases "offset_in < length_in")
    case False
    then show ?thesis by (simp add: decrypt_loop_done)
  next
    case True
    have IH: "hk_server_transport_decrypt_loop A cs
         (ctx'\<lparr>received_frame_count := received_frame_count ctx' + 65536\<rparr>) keys inp out'
         length_in (offset_in + (m + HK_AAD_SIZE + HK_AUTHTAG_SIZE)) oo =
       (case hk_server_transport_decrypt_loop A cs ctx' keys inp out'
               length_in (offset_in + (m + HK_AAD_SIZE + HK_AUTHTAG_SIZE)) oo of
          Inl f \<Rightarrow> Inl f
        | Inr (ret, ctx'', out'') \<Rightarrow>
            Inr (ret, ctx''\<lparr>received_frame_count := received_frame_count ctx'' + 65536\<rparr>,
                 out''))" for ctx' out' m oo
      using True by (intro less.hyps) (simp add: hk_consts)
    note L = hk_server_transport_decrypt_loop.simps[of A cs
        "ctx\<lparr>received_frame_count := received_frame_count ctx + 65536\<rparr>" keys inp out
        length_in offset_in offset_out]
    note R = hk_server_transport_decrypt_loop.simps[of A cs ctx keys inp out
        length_in offset_in offset_out]
    show ?thesis
      unfolding L R
      using True IH[of "ctx\<lparr>received_frame_count := received_frame_count ctx + 1\<rparr>"]
      by (simp add: Let_def frame_nonce_period split: option.splits)
  qed
qed

text \<open>
  C4, as the code has it: no frame counter is ever checked. A counter is a 32-bit
  \<^verbatim>\<open>size_t\<close> that is incremented after every frame, and the nonce holds its low 16 bits
  only: a frame operation at the counter \<open>c + 65536\<close> goes exactly as at the counter
  \<open>c\<close>, with the same nonce, the same return value and the same bytes on the wire or in
  the plaintext buffer. After 65536 frames the nonces repeat and no error is raised.
\<close>

theorem frame_counter_wraps_nonce_without_error:
  "frame_nonce (c + 65536) = frame_nonce c \<and>
   hk_server_transport_encrypt_and_send A socket
     (ctx\<lparr>sent_frame_count := sent_frame_count ctx + 65536\<rparr>) keys P =
   (case hk_server_transport_encrypt_and_send A socket ctx keys P of
      (ret, ctx', socket') \<Rightarrow>
        (ret, ctx'\<lparr>sent_frame_count := sent_frame_count ctx' + 65536\<rparr>, socket')) \<and>
   hk_server_transport_decrypt A cs
     (ctx\<lparr>received_frame_count := received_frame_count ctx + 65536\<rparr>) keys inp out length_in =
   (case hk_server_transport_decrypt A cs ctx keys inp out length_in of
      Inl f \<Rightarrow> Inl f
    | Inr (ret, ctx', out') \<Rightarrow>
        Inr (ret, ctx'\<lparr>received_frame_count := received_frame_count ctx' + 65536\<rparr>, out'))"
  by (simp only: frame_nonce_period hk_server_transport_encrypt_and_send_def
      hk_server_transport_decrypt_def encrypt_and_send_loop_period decrypt_loop_period
      simp_thms)

text \<open>
  C4, as the claim has it, fails: the frame operation at the counter 65536 is no error.
  Sending one byte then returns 1 and puts on the wire, under the nonce of the counter 0,
  the very frame that the counter 0 gives.
\<close>

theorem frame_counter_65536_is_no_error:
  "fst (hk_server_transport_encrypt_and_send toy_aead idle_socket
         (secure_context\<lparr>sent_frame_count := 65536\<rparr>) toy_keys [65]) = 1 \<and>
   frame_nonce 65536 = frame_nonce 0 \<and>
   tx_wire (snd (snd (hk_server_transport_encrypt_and_send toy_aead idle_socket
         (secure_context\<lparr>sent_frame_count := 65536\<rparr>) toy_keys [65]))) =
     [1, 0, 68] @ replicate 16 69 \<and>
   tx_wire (snd (snd (hk_server_transport_encrypt_and_send toy_aead idle_socket
         secure_context toy_keys [65]))) =
     [1, 0, 68] @ replicate 16 69"
proof -
  have idle: "tx_script idle_socket = []"
    by (simp add: idle_socket_def)
  have n: "frame_nonce 65536 = frame_nonce 0"
    using frame_nonce_period[of 0] by simp
  have frames: "sent_frames toy_aead (response_key toy_keys) c [65] =
      [wire_frame toy_aead (response_key toy_keys) c [65]]" for c
    by (simp add: sent_frames_step hk_consts)
  have frame: "wire_frame toy_aead (response_key toy_keys) 0 [65] = 1 # 0 # 68 # replicate 16 69"
    by (simp add: wire_frame_def toy_defs hk_consts)
  have frame': "wire_frame toy_aead (response_key toy_keys) 65536 [65] =
      1 # 0 # 68 # replicate 16 69"
    unfolding wire_frame_def n using frame by (simp add: wire_frame_def)
  show ?thesis
    unfolding hk_server_transport_encrypt_and_send_def
      encrypt_and_send_loop_idle[OF toy_aead_encrypts idle]
    by (simp add: n frames frame frame' secure_context_fields idle_socket_def
        size_t_to_int_def)
qed

subsection \<open>Fragmentation\<close>

lemma message_size_unsigned_nth:
  assumes "2 \<le> length frame"
  shows "message_size_of False frame = unat (frame ! 0) + 256 * unat (frame ! 1)"
proof -
  from assms obtain b0 b1 rest where "frame = b0 # b1 # rest"
    by (cases frame; cases "tl frame") auto
  then show ?thesis by (simp add: message_size_unsigned)
qed

lemma sends_succeed_take:
  "sends_succeed socket \<Longrightarrow> \<forall>r \<in> set (take n (tx_script socket)). \<not> isl r"
  by (auto simp: sends_succeed_def dest: in_set_takeD)

lemma sends_succeed_idle: "sends_succeed idle_socket"
  by (simp add: sends_succeed_def idle_socket_def)

text \<open>
  C6: the encrypt-and-send operation cuts any plaintext into chunks of at most 1006 bytes
  and emits each chunk as one frame: the chunk's length in 2 bytes, little-endian, then
  the cipher's output for the chunk, of the chunk's length and 16 bytes more. A plaintext
  of \<open>3 * 1006 + 7\<close> bytes gives 4 frames, with chunks of 1006, 1006, 1006 and 7 bytes.
\<close>

theorem encrypt_and_send_fragments_plaintext:
  assumes "aead_encrypts A" and "sends_succeed socket"
  shows "\<exists>frames.
    tx_calls (snd (snd (hk_server_transport_encrypt_and_send A socket ctx keys P))) =
      tx_calls socket @ frames \<and>
    length frames = length (plaintext_chunks P) \<and>
    concat (plaintext_chunks P) = P \<and>
    map length (plaintext_chunks P) =
      replicate (length P div 1006) 1006 @
      (if length P mod 1006 = 0 then [] else [length P mod 1006]) \<and>
    (\<forall>k < length frames.
       length (plaintext_chunks P ! k) \<le> 1006 \<and>
       frames ! k =
         frame_length_prefix (length (plaintext_chunks P ! k)) @
         the (encrypt_buffer A (response_key keys)
               (frame_nonce (sent_frame_count ctx + of_nat k))
               (frame_length_prefix (length (plaintext_chunks P ! k)))
               (plaintext_chunks P ! k)) \<and>
       length (frames ! k) = 2 + length (plaintext_chunks P ! k) + 16 \<and>
       unat (frames ! k ! 0) + 256 * unat (frames ! k ! 1) = length (plaintext_chunks P ! k)) \<and>
    (length P = 3 * 1006 + 7 \<longrightarrow>
       length frames = 4 \<and> map length (plaintext_chunks P) = [1006, 1006, 1006, 7])"
proof -
  let ?frames = "sent_frames A (response_key keys) (sent_frame_count ctx) P"
  from encrypt_and_send_loop_ok[OF assms(1) sends_succeed_take[OF assms(2)],
      where pending = P and ctx = ctx and keys = keys and L = "length P"]
  have calls: "tx_calls (snd (snd (hk_server_transport_encrypt_and_send A socket ctx keys P))) =
      tx_calls socket @ ?frames"
    by (auto simp: hk_server_transport_encrypt_and_send_def)
  have sizes: "map length (plaintext_chunks P) =
      replicate (length P div 1006) 1006 @
      (if length P mod 1006 = 0 then [] else [length P mod 1006])"
    using plaintext_chunk_sizes[of P] by (simp only: HK_MAX_DATA_SIZE_eq)
  have each: "length (plaintext_chunks P ! k) \<le> 1006 \<and>
       ?frames ! k =
         frame_length_prefix (length (plaintext_chunks P ! k)) @
         the (encrypt_buffer A (response_key keys)
               (frame_nonce (sent_frame_count ctx + of_nat k))
               (frame_length_prefix (length (plaintext_chunks P ! k)))
               (plaintext_chunks P ! k)) \<and>
       length (?frames ! k) = 2 + length (plaintext_chunks P ! k) + 16 \<and>
       unat (?frames ! k ! 0) + 256 * unat (?frames ! k ! 1) = length (plaintext_chunks P ! k)"
    if "k < length ?frames" for k
  proof -
    let ?chunk = "plaintext_chunks P ! k"
    let ?frame = "wire_frame A (response_key keys) (sent_frame_count ctx + of_nat k) ?chunk"
    from that have k: "k < length (plaintext_chunks P)" by simp
    then have bound: "length ?chunk \<le> HK_MAX_DATA_SIZE"
      using plaintext_chunks_bounds[of ?chunk P] by simp
    have nth: "?frames ! k = ?frame"
      using k by (rule sent_frames_nth)
    have len: "length ?frame = 2 + length ?chunk + 16"
      using wire_frame_shape(1)[OF assms(1) bound] by (simp add: hk_consts)
    then have "2 \<le> length ?frame" by simp
    then have "message_size_of False ?frame = unat (?frame ! 0) + 256 * unat (?frame ! 1)"
      by (rule message_size_unsigned_nth)
    then have le: "unat (?frame ! 0) + 256 * unat (?frame ! 1) = length ?chunk"
      using wire_frame_shape(3)[OF assms(1) bound] by simp
    show ?thesis
      unfolding nth using bound len le by (simp add: wire_frame_def HK_MAX_DATA_SIZE_eq)
  qed
  have example: "length ?frames = 4 \<and> map length (plaintext_chunks P) = [1006, 1006, 1006, 7]"
    if "length P = 3 * 1006 + 7"
  proof -
    from that have "length P div 1006 = 3" "length P mod 1006 = 7" by simp_all
    with sizes have m: "map length (plaintext_chunks P) = [1006, 1006, 1006, 7]"
      by (simp add: numeral_3_eq_3)
    have "length (plaintext_chunks P) = length (map length (plaintext_chunks P))"
      by simp
    also have "\<dots> = 4"
      unfolding m by simp
    finally show ?thesis using m by simp
  qed
  show ?thesis
  proof (rule exI[of _ ?frames], intro conjI)
    show "tx_calls (snd (snd (hk_server_transport_encrypt_and_send A socket ctx keys P))) =
        tx_calls socket @ ?frames"
      by (rule calls)
    show "length ?frames = length (plaintext_chunks P)"
      by simp
    show "concat (plaintext_chunks P) = P"
      by (rule concat_plaintext_chunks)
    show "map length (plaintext_chunks P) =
        replicate (length P div 1006) 1006 @
        (if length P mod 1006 = 0 then [] else [length P mod 1006])"
      by (rule sizes)
    show "\<forall>k < length ?frames.
       length (plaintext_chunks P ! k) \<le> 1006 \<and>
       ?frames ! k =
         frame_length_prefix (length (plaintext_chunks P ! k)) @
         the (encrypt_buffer A (response_key keys)
               (frame_nonce (sent_frame_count ctx + of_nat k))
               (frame_length_prefix (length (plaintext_chunks P ! k)))
               (plaintext_chunks P ! k)) \<and>
       length (?frames ! k) = 2 + length (plaintext_chunks P ! k) + 16 \<and>
       unat (?frames ! k ! 0) + 256 * unat (?frames ! k ! 1) = length (plaintext_chunks P ! k)"
      using each by (intro allI impI)
    show "length P = 3 * 1006 + 7 \<longrightarrow>
        length ?frames = 4 \<and> map length (plaintext_chunks P) = [1006, 1006, 1006, 7]"
      using example by (intro impI)
  qed
qed

text \<open>The theorem on the test double, for 3025 bytes of plaintext.\<close>

theorem encrypt_and_send_fragments_plaintext_witness:
  "aead_encrypts toy_aead \<and> sends_succeed idle_socket \<and>
   (\<exists>frames.
      tx_calls (snd (snd (hk_server_transport_encrypt_and_send toy_aead idle_socket
        secure_context toy_keys (replicate 3025 0)))) = tx_calls idle_socket @ frames \<and>
      length frames = 4 \<and>
      map length (plaintext_chunks (replicate 3025 0)) = [1006, 1006, 1006, 7])"
proof -
  have len: "length (replicate 3025 (0 :: byte)) = 3 * 1006 + 7" by simp
  from encrypt_and_send_fragments_plaintext[OF toy_aead_encrypts sends_succeed_idle,
      where ctx = secure_context and keys = toy_keys and P = "replicate 3025 0"]
  obtain frames where
    calls: "tx_calls (snd (snd (hk_server_transport_encrypt_and_send toy_aead idle_socket
        secure_context toy_keys (replicate 3025 0)))) = tx_calls idle_socket @ frames"
    and example: "length (replicate 3025 (0 :: byte)) = 3 * 1006 + 7 \<longrightarrow>
       length frames = 4 \<and>
       map length (plaintext_chunks (replicate 3025 0)) = [1006, 1006, 1006, 7]"
    by (elim exE conjE) (rule that; assumption)
  from example len have "length frames = 4"
    and "map length (plaintext_chunks (replicate 3025 0)) = [1006, 1006, 1006, 7]"
    by (rule conjunct1[OF mp], rule conjunct2[OF mp])
  with calls show ?thesis
    using toy_aead_encrypts sends_succeed_idle by (intro conjI exI[of _ frames])
qed

subsection \<open>Nonces and counters\<close>

lemma frame_nonce_layout:
  "frame_nonce c = [0, 0, 0, 0, frame_nonce c ! 4, frame_nonce c ! 5, 0, 0, 0, 0, 0, 0]"
  "unat (frame_nonce c ! 4) = unat c mod 256"
  "unat (frame_nonce c ! 5) = unat c div 256 mod 256"
  by (simp_all add: frame_nonce_def nonce_byte4 nonce_byte5)

lemma frame_nonce_byte5_small:
  assumes "unat c < 65536"
  shows "unat (frame_nonce c ! 5) = unat c div 256"
proof -
  from assms have "unat c div 256 < 256" by simp
  then show ?thesis by (simp add: frame_nonce_layout(3))
qed

text \<open>
  C7: for every frame, in either direction, the 12-byte nonce is zero but for its bytes 4
  and 5, which hold the direction's frame counter as 16 bits, little-endian; and the
  counter goes up by one per frame, right after the frame's nonce is made from it. Byte 5 is
  a byte: it holds the counter divided by 256 as far as that fits, which is the whole of it
  while the counter is below 65536. Of a plaintext sent, chunk \<open>k\<close> is encrypted under the
  nonce of the send counter plus \<open>k\<close>; of the frames received, frame \<open>k\<close> is decrypted
  under the nonce of the receive counter plus \<open>k\<close>. When every frame gets through, the
  counter ends advanced by the number of frames. When frame \<open>k\<close> is the first that the
  cipher or the socket does not let through, the operation stops there and the counter
  ends advanced by \<open>k + 1\<close>: the failing frame has had its nonce made and is counted
  too. What lies in the input buffer behind the frames received plays no part.
\<close>

theorem nonce_carries_frame_counter:
  assumes "aead_decrypt_length A"
    and "\<forall>frame \<in> set frames. frame_of_input cs frame"
  shows "frame_nonce c = [0, 0, 0, 0, frame_nonce c ! 4, frame_nonce c ! 5, 0, 0, 0, 0, 0, 0] \<and>
    unat (frame_nonce c ! 4) = unat c mod 256 \<and>
    unat (frame_nonce c ! 5) = unat c div 256 mod 256 \<and>
    (unat c < 65536 \<longrightarrow> unat (frame_nonce c ! 5) = unat c div 256) \<and>
    ((\<forall>k < length (plaintext_chunks P).
        \<not> send_frame_fails A (response_key keys) (sent_frame_count sctx) (tx_script socket)
            P k) \<longrightarrow>
     (\<exists>socket'.
        hk_server_transport_encrypt_and_send A socket sctx keys P =
          (size_t_to_int (of_nat (length P)),
           sctx\<lparr>sent_frame_count :=
             sent_frame_count sctx + of_nat (length (plaintext_chunks P))\<rparr>,
           socket') \<and>
        tx_calls socket' =
          tx_calls socket @ sent_frames A (response_key keys) (sent_frame_count sctx) P)) \<and>
    (\<forall>k < length (plaintext_chunks P).
       send_frame_fails A (response_key keys) (sent_frame_count sctx) (tx_script socket) P k \<and>
       (\<forall>j < k. \<not> send_frame_fails A (response_key keys) (sent_frame_count sctx)
                   (tx_script socket) P j) \<longrightarrow>
       (\<exists>socket'.
          hk_server_transport_encrypt_and_send A socket sctx keys P =
            (- 1, sctx\<lparr>sent_frame_count := sent_frame_count sctx + of_nat (Suc k)\<rparr>,
             socket'))) \<and>
    (\<forall>k < length (plaintext_chunks P).
       sent_frames A (response_key keys) (sent_frame_count sctx) P ! k =
         frame_length_prefix (length (plaintext_chunks P ! k)) @
         the (encrypt_buffer A (response_key keys)
               (frame_nonce (sent_frame_count sctx + of_nat k))
               (frame_length_prefix (length (plaintext_chunks P ! k)))
               (plaintext_chunks P ! k))) \<and>
    ((\<forall>p \<in> set (received_plaintexts A (request_key keys) (received_frame_count rctx) frames).
        p \<noteq> None) \<and>
     length (concat (map the
       (received_plaintexts A (request_key keys) (received_frame_count rctx) frames)))
     \<le> length out \<longrightarrow>
     hk_server_transport_decrypt A cs rctx keys (concat frames @ tail) out
         (length (concat frames)) =
       Inr (size_t_to_int (of_nat (length (concat (map the
              (received_plaintexts A (request_key keys) (received_frame_count rctx) frames))))),
            rctx\<lparr>received_frame_count := received_frame_count rctx + of_nat (length frames)\<rparr>,
            write_at out 0 (concat (map the
              (received_plaintexts A (request_key keys) (received_frame_count rctx) frames))))) \<and>
    (\<forall>j < length frames.
       received_plaintexts A (request_key keys) (received_frame_count rctx) frames ! j = None \<and>
       (\<forall>i < j. received_plaintexts A (request_key keys) (received_frame_count rctx) frames ! i
                  \<noteq> None) \<and>
       length (concat (map the (take j
         (received_plaintexts A (request_key keys) (received_frame_count rctx) frames)))) +
       message_size_of cs (frames ! j) \<le> length out \<longrightarrow>
       hk_server_transport_decrypt A cs rctx keys (concat frames @ tail) out
           (length (concat frames)) =
         Inr (HTTPD_SOCK_ERR_FAIL,
              rctx\<lparr>received_frame_count := received_frame_count rctx + of_nat (Suc j)\<rparr>,
              write_at out 0 (concat (map the (take j
                (received_plaintexts A (request_key keys) (received_frame_count rctx)
                  frames)))))) \<and>
    (\<forall>k < length frames.
       received_plaintexts A (request_key keys) (received_frame_count rctx) frames ! k =
         decrypt_buffer A (request_key keys) (frame_nonce (received_frame_count rctx + of_nat k))
           (take HK_AAD_SIZE (frames ! k)) (drop HK_AAD_SIZE (frames ! k)))"
proof (intro conjI)
  let ?rp = "received_plaintexts A (request_key keys) (received_frame_count rctx) frames"
  show "frame_nonce c = [0, 0, 0, 0, frame_nonce c ! 4, frame_nonce c ! 5, 0, 0, 0, 0, 0, 0]"
    by (rule frame_nonce_layout)
  show "unat (frame_nonce c ! 4) = unat c mod 256"
    by (rule frame_nonce_layout)
  show "unat (frame_nonce c ! 5) = unat c div 256 mod 256"
    by (rule frame_nonce_layout)
  show "unat c < 65536 \<longrightarrow> unat (frame_nonce c ! 5) = unat c div 256"
    by (intro impI) (rule frame_nonce_byte5_small)
  show "(\<forall>k < length (plaintext_chunks P).
        \<not> send_frame_fails A (response_key keys) (sent_frame_count sctx) (tx_script socket)
            P k) \<longrightarrow>
     (\<exists>socket'.
        hk_server_transport_encrypt_and_send A socket sctx keys P =
          (size_t_to_int (of_nat (length P)),
           sctx\<lparr>sent_frame_count :=
             sent_frame_count sctx + of_nat (length (plaintext_chunks P))\<rparr>,
           socket') \<and>
        tx_calls socket' =
          tx_calls socket @ sent_frames A (response_key keys) (sent_frame_count sctx) P)"
    unfolding hk_server_transport_encrypt_and_send_def
    by (intro impI) (rule encrypt_and_send_loop_no_failure)
  show "\<forall>k < length (plaintext_chunks P).
       send_frame_fails A (response_key keys) (sent_frame_count sctx) (tx_script socket) P k \<and>
       (\<forall>j < k. \<not> send_frame_fails A (response_key keys) (sent_frame_count sctx)
                   (tx_script socket) P j) \<longrightarrow>
       (\<exists>socket'.
          hk_server_transport_encrypt_and_send A socket sctx keys P =
            (- 1, sctx\<lparr>sent_frame_count := sent_frame_count sctx + of_nat (Suc k)\<rparr>,
             socket'))"
    unfolding hk_server_transport_encrypt_and_send_def
    by (intro allI impI, elim conjE) (rule encrypt_and_send_loop_first_failure)
  show "\<forall>k < length (plaintext_chunks P).
       sent_frames A (response_key keys) (sent_frame_count sctx) P ! k =
         frame_length_prefix (length (plaintext_chunks P ! k)) @
         the (encrypt_buffer A (response_key keys)
               (frame_nonce (sent_frame_count sctx + of_nat k))
               (frame_length_prefix (length (plaintext_chunks P ! k)))
               (plaintext_chunks P ! k))"
    by (simp add: sent_frames_nth wire_frame_def)
  show "(\<forall>p \<in> set ?rp. p \<noteq> None) \<and> length (concat (map the ?rp)) \<le> length out \<longrightarrow>
     hk_server_transport_decrypt A cs rctx keys (concat frames @ tail) out
         (length (concat frames)) =
       Inr (size_t_to_int (of_nat (length (concat (map the ?rp)))),
            rctx\<lparr>received_frame_count := received_frame_count rctx + of_nat (length frames)\<rparr>,
            write_at out 0 (concat (map the ?rp)))"
  proof (intro impI, elim conjE)
    assume dec: "\<forall>p \<in> set ?rp. p \<noteq> None"
      and "length (concat (map the ?rp)) \<le> length out"
    then have fit: "0 + length (concat (map the ?rp)) \<le> length out"
      by simp
    from decrypt_loop_frames[OF assms(1,2) dec fit, where pre = "[]" and tail = tail]
    show "hk_server_transport_decrypt A cs rctx keys (concat frames @ tail) out
         (length (concat frames)) =
       Inr (size_t_to_int (of_nat (length (concat (map the ?rp)))),
            rctx\<lparr>received_frame_count := received_frame_count rctx + of_nat (length frames)\<rparr>,
            write_at out 0 (concat (map the ?rp)))"
      by (simp add: hk_server_transport_decrypt_def)
  qed
  show "\<forall>j < length frames.
       ?rp ! j = None \<and> (\<forall>i < j. ?rp ! i \<noteq> None) \<and>
       length (concat (map the (take j ?rp))) + message_size_of cs (frames ! j) \<le> length out \<longrightarrow>
       hk_server_transport_decrypt A cs rctx keys (concat frames @ tail) out
           (length (concat frames)) =
         Inr (HTTPD_SOCK_ERR_FAIL,
              rctx\<lparr>received_frame_count := received_frame_count rctx + of_nat (Suc j)\<rparr>,
              write_at out 0 (concat (map the (take j ?rp))))"
  proof (intro allI impI, elim conjE)
    fix j
    assume j: "j < length frames" and none: "?rp ! j = None"
      and before: "\<forall>i < j. ?rp ! i \<noteq> None"
      and "length (concat (map the (take j ?rp))) + message_size_of cs (frames ! j)
        \<le> length out"
    then have fit: "0 + length (concat (map the (take j ?rp))) + message_size_of cs (frames ! j)
        \<le> length out"
      by simp
    from decrypt_loop_failure[OF assms(1,2) j before none fit, where pre = "[]"
        and tail = tail]
    show "hk_server_transport_decrypt A cs rctx keys (concat frames @ tail) out
           (length (concat frames)) =
         Inr (HTTPD_SOCK_ERR_FAIL,
              rctx\<lparr>received_frame_count := received_frame_count rctx + of_nat (Suc j)\<rparr>,
              write_at out 0 (concat (map the (take j ?rp))))"
      by (simp add: hk_server_transport_decrypt_def)
  qed
  show "\<forall>k < length frames.
       ?rp ! k =
         decrypt_buffer A (request_key keys) (frame_nonce (received_frame_count rctx + of_nat k))
           (take HK_AAD_SIZE (frames ! k)) (drop HK_AAD_SIZE (frames ! k))"
    by (simp add: received_plaintexts_nth frame_plaintext_def)
qed

text \<open>
  The theorem on the test double, with both counters at 255, so that the nonce bytes go
  from 255, 0 to 0, 1. A plaintext of 1007 bytes is sent as two frames and the send
  counter ends at 257; when the socket fails on the second frame the operation returns
  \<open>- 1\<close> and the counter ends at 257 as well; when the cipher refuses the only frame
  of a plaintext of one byte, the counter ends at 256. Two frames received are decrypted
  under the counters 255 and 256 and the receive counter ends at 257; when the second
  frame has a wrong tag, the operation fails and the counter ends at 257 as well.
\<close>

theorem nonce_carries_frame_counter_witness:
  "aead_decrypt_length toy_aead \<and>
   frame_of_input False (1 # 0 # 67 # replicate 16 68) \<and>
   frame_of_input False (1 # 0 # 70 # replicate 16 71) \<and>
   frame_of_input False (1 # 0 # 0 # replicate 16 0) \<and>
   unat (frame_nonce 255 ! 4) = 255 \<and> unat (frame_nonce 255 ! 5) = 0 \<and>
   unat (frame_nonce 256 ! 4) = 0 \<and> unat (frame_nonce 256 ! 5) = 1 \<and>
   plaintext_chunks (replicate 1007 65) = [replicate 1006 65, [65]] \<and>
   \<not> send_frame_fails toy_aead [1, 2] 255 [] (replicate 1007 65) 0 \<and>
   \<not> send_frame_fails toy_aead [1, 2] 255 [] (replicate 1007 65) 1 \<and>
   (\<exists>socket'.
      hk_server_transport_encrypt_and_send toy_aead idle_socket
        (secure_context\<lparr>sent_frame_count := 255\<rparr>) toy_keys (replicate 1007 65) =
        (1007, secure_context\<lparr>sent_frame_count := 257\<rparr>, socket') \<and>
      tx_calls socket' =
        [238 # 3 # replicate 1006 67 @ replicate 16 97, 1 # 0 # 69 # replicate 16 70]) \<and>
   \<not> send_frame_fails toy_aead [1, 2] 255 [Inr 1024, Inl ECONNRESET] (replicate 1007 65) 0 \<and>
   send_frame_fails toy_aead [1, 2] 255 [Inr 1024, Inl ECONNRESET] (replicate 1007 65) 1 \<and>
   (\<exists>socket'.
      hk_server_transport_encrypt_and_send toy_aead
        (idle_socket\<lparr>tx_script := [Inr 1024, Inl ECONNRESET]\<rparr>)
        (secure_context\<lparr>sent_frame_count := 255\<rparr>) toy_keys (replicate 1007 65) =
        (- 1, secure_context\<lparr>sent_frame_count := 257\<rparr>, socket')) \<and>
   send_frame_fails (toy_aead\<lparr>encrypt_buffer := \<lambda>key nonce aad plain. None\<rparr>) [1, 2] 255 []
     [65] 0 \<and>
   (\<exists>socket'.
      hk_server_transport_encrypt_and_send
        (toy_aead\<lparr>encrypt_buffer := \<lambda>key nonce aad plain. None\<rparr>) idle_socket
        (secure_context\<lparr>sent_frame_count := 255\<rparr>) toy_keys [65] =
        (- 1, secure_context\<lparr>sent_frame_count := 256\<rparr>, socket')) \<and>
   received_plaintexts toy_aead [1, 2] 255
     [1 # 0 # 67 # replicate 16 68, 1 # 0 # 70 # replicate 16 71] = [Some [65], Some [66]] \<and>
   hk_server_transport_decrypt toy_aead False (secure_context\<lparr>received_frame_count := 255\<rparr>)
     toy_keys (1 # 0 # 67 # replicate 16 68 @ 1 # 0 # 70 # replicate 16 71 @ [9, 9])
     (replicate HK_MAX_RECV_SIZE 0) 38 =
     Inr (2, secure_context\<lparr>received_frame_count := 257\<rparr>, 65 # 66 # replicate 1022 0) \<and>
   received_plaintexts toy_aead [1, 2] 255
     [1 # 0 # 67 # replicate 16 68, 1 # 0 # 0 # replicate 16 0] = [Some [65], None] \<and>
   hk_server_transport_decrypt toy_aead False (secure_context\<lparr>received_frame_count := 255\<rparr>)
     toy_keys (1 # 0 # 67 # replicate 16 68 @ 1 # 0 # 0 # replicate 16 0 @ [9, 9])
     (replicate HK_MAX_RECV_SIZE 0) 38 =
     Inr (HTTPD_SOCK_ERR_FAIL, secure_context\<lparr>received_frame_count := 257\<rparr>,
          65 # replicate 1023 0)"
proof -
  let ?f1 = "1 # 0 # 67 # replicate 16 (68 :: byte)"
  let ?f2 = "1 # 0 # 70 # replicate 16 (71 :: byte)"
  let ?bad = "1 # 0 # 0 # replicate 16 (0 :: byte)"
  let ?P = "replicate 1007 (65 :: byte)"
  let ?sctx = "secure_context\<lparr>sent_frame_count := 255\<rparr>"
  let ?rctx = "secure_context\<lparr>received_frame_count := 255\<rparr>"
  let ?out = "replicate HK_MAX_RECV_SIZE (0 :: byte)"
  let ?script = "[Inr 1024, Inl ECONNRESET] :: (errno + nat) list"
  let ?dead = "toy_aead\<lparr>encrypt_buffer := \<lambda>key nonce aad plain. None\<rparr>"
  have wf1: "frame_of_input False ?f1" and wf2: "frame_of_input False ?f2"
    and wf3: "frame_of_input False ?bad"
    by (simp_all add: frame_of_input_def message_size_unsigned hk_consts)
  have chunks: "plaintext_chunks ?P = [replicate 1006 65, [65]]"
    by (simp add: plaintext_chunks_step hk_consts)
  have one: "plaintext_chunks [65 :: byte] = [[65]]"
    by (simp add: plaintext_chunks_step hk_consts)
  have frames: "sent_frames toy_aead [1, 2] 255 ?P =
      [238 # 3 # replicate 1006 67 @ replicate 16 97, 1 # 0 # 69 # replicate 16 70]"
    by (simp add: sent_frames_step wire_frame_def toy_defs hk_consts frame_nonce_def
        frame_length_prefix_def sum_list_replicate)
  have ok0: "\<not> send_frame_fails toy_aead [1, 2] 255 [] ?P 0"
    and ok1: "\<not> send_frame_fails toy_aead [1, 2] 255 [] ?P 1"
    and ok0': "\<not> send_frame_fails toy_aead [1, 2] 255 ?script ?P 0"
    and bad1: "send_frame_fails toy_aead [1, 2] 255 ?script ?P 1"
    and dead0: "send_frame_fails ?dead [1, 2] 255 [] [65] 0"
    by (simp_all add: send_frame_fails_def toy_aead_def)
  have rp: "received_plaintexts toy_aead [1, 2] 255 [?f1, ?f2] = [Some [65], Some [66]]"
    and rp': "received_plaintexts toy_aead [1, 2] 255 [?f1, ?bad] = [Some [65], None]"
    by (simp_all add: received_plaintexts_Cons frame_plaintext_def toy_defs hk_consts Let_def
        frame_nonce_def)
  have dl: "aead_decrypt_length ?dead"
    using toy_aead_decrypt_length by (simp add: aead_decrypt_length_def)
  have none: "\<forall>frame \<in> set ([] :: byte list list). frame_of_input False frame"
    by simp
  have wfs: "\<forall>frame \<in> set [?f1, ?f2]. frame_of_input False frame"
    and wfs': "\<forall>frame \<in> set [?f1, ?bad]. frame_of_input False frame"
    using wf1 wf2 wf3 by simp_all
  have key: "response_key toy_keys = [1, 2]" "request_key toy_keys = [1, 2]"
    by (simp_all add: toy_keys_def)
  have cnt: "sent_frame_count ?sctx = 255" "received_frame_count ?rctx = 255"
    by simp_all
  have idle: "tx_script idle_socket = []" "tx_calls idle_socket = []"
    by (simp_all add: idle_socket_def)
  note N255 = nonce_carries_frame_counter[OF toy_aead_decrypt_length none, where c = 255]
  note N256 = nonce_carries_frame_counter[OF toy_aead_decrypt_length none, where c = 256]
  have b: "unat (frame_nonce 255 ! 4) = 255" "unat (frame_nonce 255 ! 5) = 0"
    "unat (frame_nonce 256 ! 4) = 0" "unat (frame_nonce 256 ! 5) = 1"
    using N255 N256 by simp_all
  note S = nonce_carries_frame_counter[OF toy_aead_decrypt_length none, where P = ?P
      and keys = toy_keys and sctx = ?sctx and socket = idle_socket,
      THEN conjunct2, THEN conjunct2, THEN conjunct2, THEN conjunct2, THEN conjunct1]
  have hS: "\<forall>k < length (plaintext_chunks ?P).
      \<not> send_frame_fails toy_aead (response_key toy_keys) (sent_frame_count ?sctx)
          (tx_script idle_socket) ?P k"
    unfolding key cnt idle chunks using ok0 ok1 by (simp add: less_Suc_eq)
  from mp[OF S hS] obtain socket1 where
    "hk_server_transport_encrypt_and_send toy_aead idle_socket ?sctx toy_keys ?P =
       (size_t_to_int (of_nat (length ?P)),
        ?sctx\<lparr>sent_frame_count := sent_frame_count ?sctx + of_nat (length (plaintext_chunks ?P))\<rparr>,
        socket1)"
    and "tx_calls socket1 = tx_calls idle_socket @
        sent_frames toy_aead (response_key toy_keys) (sent_frame_count ?sctx) ?P"
    by (elim exE conjE) (rule that; assumption)
  then have sent: "\<exists>socket'.
      hk_server_transport_encrypt_and_send toy_aead idle_socket ?sctx toy_keys ?P =
        (1007, secure_context\<lparr>sent_frame_count := 257\<rparr>, socket') \<and>
      tx_calls socket' =
        [238 # 3 # replicate 1006 67 @ replicate 16 97, 1 # 0 # 69 # replicate 16 70]"
    unfolding key cnt idle chunks frames
    by (intro exI[of _ socket1]) (simp add: size_t_to_int_def)
  note F = nonce_carries_frame_counter[OF toy_aead_decrypt_length none, where P = ?P
      and keys = toy_keys and sctx = ?sctx and socket = "idle_socket\<lparr>tx_script := ?script\<rparr>",
      THEN conjunct2, THEN conjunct2, THEN conjunct2, THEN conjunct2, THEN conjunct2,
      THEN conjunct1, THEN spec[where x = "1 :: nat"], THEN mp, THEN mp]
  have hF1: "1 < length (plaintext_chunks ?P)"
    unfolding chunks by simp
  have hF2: "send_frame_fails toy_aead (response_key toy_keys) (sent_frame_count ?sctx)
        (tx_script (idle_socket\<lparr>tx_script := ?script\<rparr>)) ?P 1 \<and>
      (\<forall>j < 1. \<not> send_frame_fails toy_aead (response_key toy_keys) (sent_frame_count ?sctx)
        (tx_script (idle_socket\<lparr>tx_script := ?script\<rparr>)) ?P j)"
    unfolding key cnt using ok0' bad1 by simp
  from F[OF hF1 hF2] have failed: "\<exists>socket'.
      hk_server_transport_encrypt_and_send toy_aead (idle_socket\<lparr>tx_script := ?script\<rparr>)
        ?sctx toy_keys ?P = (- 1, secure_context\<lparr>sent_frame_count := 257\<rparr>, socket')"
    by simp
  note D = nonce_carries_frame_counter[OF dl none, where P = "[65]"
      and keys = toy_keys and sctx = ?sctx and socket = idle_socket,
      THEN conjunct2, THEN conjunct2, THEN conjunct2, THEN conjunct2, THEN conjunct2,
      THEN conjunct1, THEN spec[where x = "0 :: nat"], THEN mp, THEN mp]
  have hD1: "0 < length (plaintext_chunks [65 :: byte])"
    unfolding one by simp
  have hD2: "send_frame_fails ?dead (response_key toy_keys) (sent_frame_count ?sctx)
        (tx_script idle_socket) [65] 0 \<and>
      (\<forall>j < 0. \<not> send_frame_fails ?dead (response_key toy_keys) (sent_frame_count ?sctx)
        (tx_script idle_socket) [65] j)"
    unfolding key cnt idle using dead0 by simp
  from D[OF hD1 hD2] have refused: "\<exists>socket'.
      hk_server_transport_encrypt_and_send ?dead idle_socket ?sctx toy_keys [65] =
        (- 1, secure_context\<lparr>sent_frame_count := 256\<rparr>, socket')"
    by simp
  note R = nonce_carries_frame_counter[OF toy_aead_decrypt_length wfs, where keys = toy_keys
      and rctx = ?rctx and out = ?out and tail = "[9, 9]",
      THEN conjunct2, THEN conjunct2, THEN conjunct2, THEN conjunct2, THEN conjunct2,
      THEN conjunct2, THEN conjunct2, THEN conjunct1, THEN mp]
  have hR: "(\<forall>p \<in> set (received_plaintexts toy_aead (request_key toy_keys)
        (received_frame_count ?rctx) [?f1, ?f2]). p \<noteq> None) \<and>
      length (concat (map the (received_plaintexts toy_aead (request_key toy_keys)
        (received_frame_count ?rctx) [?f1, ?f2]))) \<le> length ?out"
    unfolding key cnt rp by (simp add: hk_consts)
  have received: "hk_server_transport_decrypt toy_aead False ?rctx toy_keys
      (1 # 0 # 67 # replicate 16 68 @ 1 # 0 # 70 # replicate 16 71 @ [9, 9]) ?out 38 =
      Inr (2, secure_context\<lparr>received_frame_count := 257\<rparr>, 65 # 66 # replicate 1022 0)"
    using R[OF hR] unfolding key cnt rp
    by (simp add: size_t_to_int_def write_at_def hk_consts)
  note E = nonce_carries_frame_counter[OF toy_aead_decrypt_length wfs', where keys = toy_keys
      and rctx = ?rctx and out = ?out and tail = "[9, 9]",
      THEN conjunct2, THEN conjunct2, THEN conjunct2, THEN conjunct2, THEN conjunct2,
      THEN conjunct2, THEN conjunct2, THEN conjunct2, THEN conjunct1,
      THEN spec[where x = "1 :: nat"], THEN mp, THEN mp]
  have hE1: "1 < length [?f1, ?bad]"
    by simp
  have hE2: "received_plaintexts toy_aead (request_key toy_keys) (received_frame_count ?rctx)
        [?f1, ?bad] ! 1 = None \<and>
      (\<forall>i < 1. received_plaintexts toy_aead (request_key toy_keys) (received_frame_count ?rctx)
        [?f1, ?bad] ! i \<noteq> None) \<and>
      length (concat (map the (take 1 (received_plaintexts toy_aead (request_key toy_keys)
        (received_frame_count ?rctx) [?f1, ?bad])))) +
      message_size_of False ([?f1, ?bad] ! 1) \<le> length ?out"
    unfolding key cnt rp' by (simp add: message_size_unsigned hk_consts)
  have aborted: "hk_server_transport_decrypt toy_aead False ?rctx toy_keys
      (1 # 0 # 67 # replicate 16 68 @ 1 # 0 # 0 # replicate 16 0 @ [9, 9]) ?out 38 =
      Inr (HTTPD_SOCK_ERR_FAIL, secure_context\<lparr>received_frame_count := 257\<rparr>,
           65 # replicate 1023 0)"
    using E[OF hE1 hE2] unfolding key cnt rp'
    by (simp add: write_at_def hk_consts)
  show ?thesis
    using toy_aead_decrypt_length wf1 wf2 wf3 b chunks ok0 ok1 sent ok0' bad1 failed dead0
      refused rp received rp' aborted
    by (intro conjI)
qed

subsection \<open>Failing and short writes\<close>

text \<open>
  C8: the claim has the operation report success only when every frame has been written
  completely. The loop hands each whole frame to one \<^verbatim>\<open>send\<close> call and tests the count
  that comes back only for being negative; at the end it returns the plaintext length.
  With a secure connection whose socket accepts 1 byte of the 21-byte frame for the
  plaintext 65, 66, 67, the shim's send returns 3, as if all had been written: 20 bytes
  of the frame never reach the wire. The same short write on a connection that is not
  secure is reported to the caller: send returns 1, the count of the \<^verbatim>\<open>send\<close> call.
\<close>

theorem short_write_is_reported_as_success:
  "hk_server_transport_send toy_aead secure_context toy_keys
     (idle_socket\<lparr>tx_script := [Inr 1]\<rparr>) (Some [65, 66, 67]) 3 =
     Inr (3, secure_context\<lparr>sent_frame_count := 1\<rparr>,
          idle_socket\<lparr>tx_calls := [[3, 0, 68, 69, 70] @ replicate 16 204], tx_wire := [3]\<rparr>) \<and>
   fst (hk_server_transport_encrypt_and_send toy_aead (idle_socket\<lparr>tx_script := [Inr 1]\<rparr>)
         secure_context toy_keys [65, 66, 67]) = 3 \<and>
   tx_calls (snd (snd (hk_server_transport_encrypt_and_send toy_aead
         (idle_socket\<lparr>tx_script := [Inr 1]\<rparr>) secure_context toy_keys [65, 66, 67]))) =
     [[3, 0, 68, 69, 70] @ replicate 16 204] \<and>
   tx_wire (snd (snd (hk_server_transport_encrypt_and_send toy_aead
         (idle_socket\<lparr>tx_script := [Inr 1]\<rparr>) secure_context toy_keys [65, 66, 67]))) = [3] \<and>
   hk_server_transport_send toy_aead (hk_server_transport_context_init []) toy_keys
     (idle_socket\<lparr>tx_script := [Inr 1]\<rparr>) (Some [65, 66, 67]) 3 =
     Inr (1, hk_server_transport_context_init [],
          idle_socket\<lparr>tx_calls := [[65, 66, 67]], tx_wire := [65]\<rparr>)"
proof -
  have ne: "[65, 66, 67 :: byte] \<noteq> []"
    by simp
  have sent: "hk_server_transport_encrypt_and_send toy_aead (idle_socket\<lparr>tx_script := [Inr 1]\<rparr>)
      secure_context toy_keys [65, 66, 67] =
      (3, secure_context\<lparr>sent_frame_count := 1\<rparr>,
       idle_socket\<lparr>tx_calls := [3 # 0 # 68 # 69 # 70 # replicate 16 204], tx_wire := [3]\<rparr>)"
    by (simp add: hk_server_transport_encrypt_and_send_def encrypt_and_send_loop_step[OF ne]
        toy_defs hk_consts raw_send.simps encrypt_and_send_loop_Nil size_t_to_int_def)
  have secure: "hk_server_transport_send toy_aead secure_context toy_keys
      (idle_socket\<lparr>tx_script := [Inr 1]\<rparr>) (Some [65, 66, 67]) 3 =
      Inr (3, secure_context\<lparr>sent_frame_count := 1\<rparr>,
           idle_socket\<lparr>tx_calls := [[3, 0, 68, 69, 70] @ replicate 16 204], tx_wire := [3]\<rparr>)"
    using sent by (simp add: hk_server_transport_send_def secure_context_fields)
  have plain: "hk_server_transport_send toy_aead (hk_server_transport_context_init []) toy_keys
      (idle_socket\<lparr>tx_script := [Inr 1]\<rparr>) (Some [65, 66, 67]) 3 =
      Inr (1, hk_server_transport_context_init [],
           idle_socket\<lparr>tx_calls := [[65, 66, 67]], tx_wire := [65]\<rparr>)"
    by (simp add: hk_server_transport_send_def hk_server_transport_context_init_def
        raw_send.simps idle_socket_def)
  show ?thesis
    unfolding secure plain sent by simp
qed

subsection \<open>Round trip\<close>

lemma frame_plaintext_wire_frame:
  assumes "aead_encrypts A" and "aead_inverts A"
  shows "frame_plaintext A key c (wire_frame A key c chunk) = Some chunk"
proof -
  from assms(1) obtain ct where
    enc: "encrypt_buffer A key (frame_nonce c) (frame_length_prefix (length chunk)) chunk = Some ct"
    unfolding aead_encrypts_def by blast
  then have "decrypt_buffer A key (frame_nonce c) (frame_length_prefix (length chunk)) ct =
      Some chunk"
    using assms(2) unfolding aead_inverts_def by blast
  moreover have "length (frame_length_prefix (length chunk)) = 2"
    by (simp add: frame_length_prefix_def)
  ultimately show ?thesis
    using enc by (simp add: frame_plaintext_def wire_frame_def hk_consts)
qed

lemma received_plaintexts_sent_frames:
  assumes "aead_encrypts A" and "aead_inverts A"
  shows "received_plaintexts A key c (sent_frames A key c P) = map Some (plaintext_chunks P)"
proof (rule nth_equalityI)
  show "length (received_plaintexts A key c (sent_frames A key c P)) =
      length (map Some (plaintext_chunks P))"
    by simp
next
  fix k assume "k < length (received_plaintexts A key c (sent_frames A key c P))"
  then have k: "k < length (plaintext_chunks P)" by simp
  then show "received_plaintexts A key c (sent_frames A key c P) ! k =
      map Some (plaintext_chunks P) ! k"
    by (simp add: received_plaintexts_nth sent_frames_nth frame_plaintext_wire_frame[OF assms])
qed

text \<open>
  What was sent, of any length, decrypts to itself when the output buffer has room for it.
\<close>

lemma decrypt_sent_frames:
  assumes "aead_encrypts A" and "aead_inverts A" and "aead_decrypt_length A"
    and "length P \<le> length out"
  shows "hk_server_transport_decrypt A False rctx rkeys
           (concat (sent_frames A (request_key rkeys) (received_frame_count rctx) P) @ tail) out
           (length (concat (sent_frames A (request_key rkeys) (received_frame_count rctx) P))) =
     Inr (size_t_to_int (of_nat (length P)),
          rctx\<lparr>received_frame_count :=
            received_frame_count rctx + of_nat (length (plaintext_chunks P))\<rparr>,
          write_at out 0 P)"
proof -
  let ?frames = "sent_frames A (request_key rkeys) (received_frame_count rctx) P"
  have plains: "received_plaintexts A (request_key rkeys) (received_frame_count rctx) ?frames =
      map Some (plaintext_chunks P)"
    using assms(1,2) by (rule received_plaintexts_sent_frames)
  have the: "concat (map the (map Some (plaintext_chunks P))) = P"
    by (simp add: o_def concat_plaintext_chunks)
  have wf: "\<forall>frame \<in> set ?frames. frame_of_input False frame"
    using sent_frames_shape(2)[OF assms(1)] by blast
  have dec: "\<forall>p \<in> set (received_plaintexts A (request_key rkeys) (received_frame_count rctx)
      ?frames). p \<noteq> None"
    unfolding plains by auto
  have fit: "0 + length (concat (map the (received_plaintexts A (request_key rkeys)
      (received_frame_count rctx) ?frames))) \<le> length out"
    unfolding plains the using assms(4) by simp
  from decrypt_loop_frames[OF assms(3) wf dec fit, where pre = "[]" and tail = tail]
  show ?thesis
    unfolding plains the by (simp add: hk_server_transport_decrypt_def)
qed

text \<open>
  C2: for every plaintext \<open>P\<close> of at most the maximum length, decrypting what
  encrypt-and-send has put on the wire, with the same key and with the receive counter
  starting where the send counter started, gives \<open>P\<close> back and advances both counters by
  the same number of frames. The cipher is taken to invert itself, the socket to accept
  every frame in full, and \<^verbatim>\<open>char\<close> to be unsigned, as on the ESP32.
\<close>

theorem decrypt_inverts_encrypt_and_send:
  assumes "aead_encrypts A" and "aead_inverts A" and "aead_decrypt_length A"
    and "\<not> char_signed"
    and "tx_script socket = []"
    and "response_key skeys = request_key rkeys"
    and "received_frame_count rctx = sent_frame_count sctx"
    and "length P \<le> HK_MAX_DATA_SIZE"
    and "length out = HK_MAX_RECV_SIZE"
  shows "\<exists>sctx' socket' rctx' out'.
    hk_server_transport_encrypt_and_send A socket sctx skeys P =
      (int (length P), sctx', socket') \<and>
    hk_server_transport_decrypt A char_signed rctx rkeys
      (drop (length (tx_wire socket)) (tx_wire socket')) out
      (length (drop (length (tx_wire socket)) (tx_wire socket'))) =
      Inr (int (length P), rctx', out') \<and>
    take (length P) out' = P \<and>
    sent_frame_count sctx' = sent_frame_count sctx + of_nat (length (plaintext_chunks P)) \<and>
    received_frame_count rctx' =
      received_frame_count rctx + of_nat (length (plaintext_chunks P)) \<and>
    received_frame_count rctx' = sent_frame_count sctx'"
proof -
  let ?frames = "sent_frames A (response_key skeys) (sent_frame_count sctx) P"
  let ?n = "length (plaintext_chunks P)"
  let ?sctx' = "sctx\<lparr>sent_frame_count := sent_frame_count sctx + of_nat ?n\<rparr>"
  let ?socket' = "socket\<lparr>tx_calls := tx_calls socket @ ?frames,
    tx_wire := tx_wire socket @ concat ?frames\<rparr>"
  let ?rctx' = "rctx\<lparr>received_frame_count := received_frame_count rctx + of_nat ?n\<rparr>"
  from assms(4) have cs: "char_signed = False" by simp
  have "length P < 2 ^ 31"
    using assms(8) by (simp add: HK_MAX_DATA_SIZE_eq)
  then have ret: "size_t_to_int (of_nat (length P)) = int (length P)"
    by (rule size_t_to_int_of_nat)
  have fit: "length P \<le> length out"
    using assms(8,9) by (simp add: hk_consts)
  have sent: "hk_server_transport_encrypt_and_send A socket sctx skeys P =
      (int (length P), ?sctx', ?socket')"
    unfolding hk_server_transport_encrypt_and_send_def
      encrypt_and_send_loop_idle[OF assms(1,5)] ret
    by (rule refl)
  have wire: "drop (length (tx_wire socket)) (tx_wire ?socket') =
      concat (sent_frames A (request_key rkeys) (received_frame_count rctx) P)"
    using assms(6,7) by simp
  have received: "hk_server_transport_decrypt A char_signed rctx rkeys
      (drop (length (tx_wire socket)) (tx_wire ?socket')) out
      (length (drop (length (tx_wire socket)) (tx_wire ?socket'))) =
      Inr (int (length P), ?rctx', write_at out 0 P)"
    unfolding wire cs ret[symmetric]
    using decrypt_sent_frames[OF assms(1,2,3) fit, where tail = "[]" and rctx = rctx
        and rkeys = rkeys]
    by simp
  have restored: "take (length P) (write_at out 0 P) = P"
    using fit by (rule take_write_at)
  show ?thesis
    using sent received restored assms(7)
    by (intro exI[of _ ?sctx'] exI[of _ ?socket'] exI[of _ ?rctx']
        exI[of _ "write_at out 0 P"]) simp
qed

text \<open>The theorem on the test double, for a plaintext of 200 bytes.\<close>

theorem decrypt_inverts_encrypt_and_send_witness:
  "aead_encrypts toy_aead \<and> aead_inverts toy_aead \<and> aead_decrypt_length toy_aead \<and>
   \<not> False \<and> tx_script idle_socket = [] \<and> response_key toy_keys = request_key toy_keys \<and>
   received_frame_count secure_context = sent_frame_count secure_context \<and>
   length (replicate 200 (7 :: byte)) \<le> HK_MAX_DATA_SIZE \<and>
   length (replicate HK_MAX_RECV_SIZE (0 :: byte)) = HK_MAX_RECV_SIZE \<and>
   (\<exists>sctx' socket' rctx' out'.
      hk_server_transport_encrypt_and_send toy_aead idle_socket secure_context toy_keys
        (replicate 200 7) = (200, sctx', socket') \<and>
      hk_server_transport_decrypt toy_aead False secure_context toy_keys
        (drop (length (tx_wire idle_socket)) (tx_wire socket'))
        (replicate HK_MAX_RECV_SIZE 0)
        (length (drop (length (tx_wire idle_socket)) (tx_wire socket'))) =
        Inr (200, rctx', out') \<and>
      take 200 out' = replicate 200 7 \<and>
      received_frame_count rctx' = sent_frame_count sctx')"
proof -
  have h4: "\<not> False" by simp
  have h5: "tx_script idle_socket = []"
    by (simp add: idle_socket_def)
  have h6: "response_key toy_keys = request_key toy_keys"
    by (simp add: toy_keys_def)
  have h7: "received_frame_count secure_context = sent_frame_count secure_context"
    by (simp add: secure_context_fields)
  have h8: "length (replicate 200 (7 :: byte)) \<le> HK_MAX_DATA_SIZE"
    by (simp add: hk_consts)
  have h9: "length (replicate HK_MAX_RECV_SIZE (0 :: byte)) = HK_MAX_RECV_SIZE"
    by simp
  from decrypt_inverts_encrypt_and_send[OF toy_aead_encrypts toy_aead_inverts
      toy_aead_decrypt_length h4 h5 h6 h7 h8 h9]
  obtain sctx' socket' rctx' out' where
    "hk_server_transport_encrypt_and_send toy_aead idle_socket secure_context toy_keys
        (replicate 200 7) = (int (length (replicate 200 (7 :: byte))), sctx', socket')"
    "hk_server_transport_decrypt toy_aead False secure_context toy_keys
        (drop (length (tx_wire idle_socket)) (tx_wire socket'))
        (replicate HK_MAX_RECV_SIZE 0)
        (length (drop (length (tx_wire idle_socket)) (tx_wire socket'))) =
        Inr (int (length (replicate 200 (7 :: byte))), rctx', out')"
    "take (length (replicate 200 (7 :: byte))) out' = replicate 200 7"
    "received_frame_count rctx' = sent_frame_count sctx'"
    by (elim exE conjE) (rule that; assumption)
  then have "\<exists>sctx' socket' rctx' out'.
      hk_server_transport_encrypt_and_send toy_aead idle_socket secure_context toy_keys
        (replicate 200 7) = (200, sctx', socket') \<and>
      hk_server_transport_decrypt toy_aead False secure_context toy_keys
        (drop (length (tx_wire idle_socket)) (tx_wire socket'))
        (replicate HK_MAX_RECV_SIZE 0)
        (length (drop (length (tx_wire idle_socket)) (tx_wire socket'))) =
        Inr (200, rctx', out') \<and>
      take 200 out' = replicate 200 7 \<and>
      received_frame_count rctx' = sent_frame_count sctx'"
    by (intro exI[of _ sctx'] exI[of _ socket'] exI[of _ rctx'] exI[of _ out']) simp
  then show ?thesis
    using toy_aead_encrypts toy_aead_inverts toy_aead_decrypt_length h4 h5 h6 h7 h8 h9
    by (intro conjI)
qed

subsection \<open>The mode of a connection\<close>















subsection \<open>Inbound traffic on a secure connection\<close>



text \<open>
  A raw read that ends inside a frame: the loop reads on behind the bytes received, in
  what the stack array held before, and the cipher rejects the frame. The receive call
  returns the failure code; the frame counter has advanced and \<open>received_length\<close> holds
  the failure code as a \<^verbatim>\<open>size_t\<close>.
\<close>

lemma decrypt_truncated_frame_example:
  "hk_server_transport_decrypt toy_aead False
     (secure_context\<lparr>received_buffer := replicate HK_MAX_RECV_SIZE 0,
        received_submitted_length := 0\<rparr>)
     toy_keys (1 # 0 # 68 # replicate 4 69 @ replicate 1017 170)
     (replicate HK_MAX_RECV_SIZE 0) 7 =
   Inr (HTTPD_SOCK_ERR_FAIL,
        secure_context\<lparr>received_buffer := replicate HK_MAX_RECV_SIZE 0,
          received_submitted_length := 0, received_frame_count := 1\<rparr>,
        replicate HK_MAX_RECV_SIZE 0)"
proof -
  let ?frame = "1 # 0 # 68 # replicate 4 69 @ replicate 12 (170 :: byte)"
  let ?ctx = "secure_context\<lparr>received_buffer := replicate HK_MAX_RECV_SIZE 0,
    received_submitted_length := 0\<rparr>"
  let ?out = "replicate HK_MAX_RECV_SIZE (0 :: byte)"
  have "replicate 1017 (170 :: byte) = replicate 12 170 @ replicate 1005 170"
    by (simp add: replicate_add[symmetric])
  then have buffer: "1 # 0 # 68 # replicate 4 69 @ replicate 1017 (170 :: byte) =
      [] @ ?frame @ replicate 1005 170"
    by simp
  have wf: "frame_of_input False ?frame"
    by (simp add: frame_of_input_def message_size_unsigned hk_consts)
  have fit: "0 + message_size_of False ?frame \<le> length ?out"
    by (simp add: message_size_unsigned hk_consts)
  have lt: "length ([] :: byte list) < 7"
    by simp
  have tag: "replicate 4 69 @ replicate 12 170 \<noteq> replicate 16 (69 :: byte)"
  proof
    assume "replicate 4 69 @ replicate 12 170 = replicate 16 (69 :: byte)"
    then have "(replicate 4 69 @ replicate 12 (170 :: byte)) ! 4 = replicate 16 (69 :: byte) ! 4"
      by (rule arg_cong)
    then show False
      by (simp add: nth_append)
  qed
  have bad: "frame_plaintext toy_aead (request_key toy_keys) (received_frame_count ?ctx) ?frame =
      None"
    by (simp add: frame_plaintext_def secure_context_fields toy_defs hk_consts Let_def tag)
  show ?thesis
    unfolding hk_server_transport_decrypt_def buffer
    using decrypt_loop_frame[OF wf fit lt, where A = toy_aead and ctx = ?ctx
        and keys = toy_keys and rest = "replicate 1005 170"] bad
    by (simp add: secure_context_fields)
qed

lemma recv_truncated_frame_example:
  "hk_server_transport_recv toy_aead False secure_context toy_keys
     (idle_socket\<lparr>rx_script := [Inr ([1, 0, 68] @ replicate 4 69)]\<rparr>) False 16
     (replicate HK_MAX_RECV_SIZE 170) =
   Inr (HTTPD_SOCK_ERR_FAIL, [],
        secure_context\<lparr>received_buffer := replicate HK_MAX_RECV_SIZE 0,
          received_length := 4294967295, received_frame_count := 1\<rparr>,
        idle_socket)"
proof -
  have raw: "raw_recv (idle_socket\<lparr>rx_script := [Inr (1 # 0 # 68 # replicate 4 69)]\<rparr>)
      HK_MAX_RECV_SIZE = (Inr (1 # 0 # 68 # replicate 4 69), idle_socket)"
    by (simp add: raw_recv.simps idle_socket_def hk_consts)
  have stale: "drop 7 (replicate HK_MAX_RECV_SIZE (170 :: byte)) = replicate 1017 170"
    by (simp add: hk_consts)
  show ?thesis
    by (simp add: hk_server_transport_recv_def secure_context_fields raw Let_def stale
        decrypt_truncated_frame_example int_to_size_t_def del: drop_replicate)
       (simp add: HTTPD_SOCK_ERR_FAIL_def secure_context_def
          hk_server_transport_set_session_secure_def hk_server_transport_context_init_def)
qed



end
